theory Spec2Isabelle
  imports Main "HOL-Library.Char_ord" "HOL-Library.List_Lexorder" "HOL-Library.AList"
    "HOL-Library.Multiset"
begin

section \<open>JSON values and text\<close>

text \<open>
  The chaincode \<^verbatim>\<open>lib/assetTransfer.js\<close> keeps every asset as a JSON text in the world
  state. A JavaScript value that can be written as JSON is a \<open>json\<close>; an object is the
  list of its properties in enumeration order (the order the properties were created in).
  A JavaScript object never has two properties of one name: \<open>wf_json\<close> says so.

  The model stops short of JavaScript in these places. Numbers are the integers, printed
  in decimal, which is what JavaScript prints for the integers a double holds exactly up
  to twenty-one digits; fractions, exponents and the rounding of doubles are left out, and
  the parser rejects a number written with a fraction or an exponent. Text is a
  \<open>string\<close> of bytes, read as UTF-8, so that \<^verbatim>\<open>Buffer.from(text)\<close> and
  \<^verbatim>\<open>buffer.toString()\<close> are the identity; the parser rejects the escape of a UTF-16
  surrogate. Keys are compared bytewise, and keys that are array indices, which
  JavaScript enumerates first, are treated like any other key.
\<close>

datatype json =
    JNull
  | JBool bool
  | JNum int
  | JStr string
  | JArr "json list"
  | JObj "(string \<times> json) list"

fun wf_json :: "json \<Rightarrow> bool"
  and wf_elems :: "json list \<Rightarrow> bool"
  and wf_members :: "(string \<times> json) list \<Rightarrow> bool"
where
  "wf_json (JArr xs) = wf_elems xs"
| "wf_json (JObj ms) = (distinct (map fst ms) \<and> wf_members ms)"
| "wf_json _ = True"
| "wf_elems [] = True"
| "wf_elems (x # xs) = (wf_json x \<and> wf_elems xs)"
| "wf_members [] = True"
| "wf_members (m # ms) = (wf_json (snd m) \<and> wf_members ms)"

abbreviation DQ :: char where "DQ \<equiv> CHR 0x22"

abbreviation BS :: char where "BS \<equiv> CHR 0x5C"

definition is_ws :: "char \<Rightarrow> bool" where
  "is_ws c = (c = CHR 0x20 \<or> c = CHR 0x09 \<or> c = CHR 0x0A \<or> c = CHR 0x0D)"

definition is_digit :: "char \<Rightarrow> bool" where
  "is_digit c = (48 \<le> (of_char c :: nat) \<and> (of_char c :: nat) \<le> 57)"

subsection \<open>Printing\<close>

definition digit_char :: "nat \<Rightarrow> char" where
  "digit_char d = ''0123456789abcdef'' ! d"

fun digits_of :: "nat \<Rightarrow> string" where
  "digits_of n = (if n < 10 then [digit_char n] else digits_of (n div 10) @ [digit_char (n mod 10)])"

declare digits_of.simps [simp del]

definition show_int :: "int \<Rightarrow> string" where
  "show_int i = (if i < 0 then CHR ''-'' # digits_of (nat (- i)) else digits_of (nat i))"

text \<open>
  A string in JSON text: the quotation mark, the backslash and the control characters
  are escaped, the short escapes where JSON has one and \<^verbatim>\<open>\u00XX\<close> otherwise.
\<close>

definition escape_char :: "char \<Rightarrow> string" where
  "escape_char c =
     (if c = DQ then [BS, DQ]
      else if c = BS then [BS, BS]
      else if c = CHR 0x08 then [BS, CHR ''b'']
      else if c = CHR 0x0C then [BS, CHR ''f'']
      else if c = CHR 0x0A then [BS, CHR ''n'']
      else if c = CHR 0x0D then [BS, CHR ''r'']
      else if c = CHR 0x09 then [BS, CHR ''t'']
      else if (of_char c :: nat) < 32 then
        [BS, CHR ''u'', CHR ''0'', CHR ''0'', digit_char (of_char c div 16), digit_char (of_char c mod 16)]
      else [c])"

definition quote :: "string \<Rightarrow> string" where
  "quote s = DQ # concat (map escape_char s) @ [DQ]"

text \<open>
  \<^verbatim>\<open>JSON.stringify(value)\<close> with no indentation: the properties of an object in their
  enumeration order, no white space between the tokens.
\<close>

fun JSON_stringify :: "json \<Rightarrow> string"
  and stringify_elems :: "json list \<Rightarrow> string"
  and stringify_members :: "(string \<times> json) list \<Rightarrow> string"
where
  "JSON_stringify JNull = ''null''"
| "JSON_stringify (JBool b) = (if b then ''true'' else ''false'')"
| "JSON_stringify (JNum i) = show_int i"
| "JSON_stringify (JStr s) = quote s"
| "JSON_stringify (JArr xs) = CHR ''['' # stringify_elems xs @ '']''"
| "JSON_stringify (JObj ms) = CHR ''{'' # stringify_members ms @ ''}''"
| "stringify_elems [] = []"
| "stringify_elems [x] = JSON_stringify x"
| "stringify_elems (x # y # ys) = JSON_stringify x @ CHR '','' # stringify_elems (y # ys)"
| "stringify_members [] = []"
| "stringify_members [m] = quote (fst m) @ CHR '':'' # JSON_stringify (snd m)"
| "stringify_members (m # n # ms) =
     quote (fst m) @ CHR '':'' # JSON_stringify (snd m) @ CHR '','' # stringify_members (n # ms)"

subsection \<open>Parsing\<close>

text \<open>
  \<^verbatim>\<open>JSON.parse(text)\<close>: white space between the tokens is skipped, a key that comes
  twice keeps its first place and its last value, and anything after the value but white
  space is an error (\<open>None\<close>, the \<^verbatim>\<open>SyntaxError\<close> of JavaScript).
\<close>

definition skip_ws :: "string \<Rightarrow> string" where
  "skip_ws = dropWhile is_ws"

definition hex_val :: "char \<Rightarrow> nat option" where
  "hex_val c =
     (let n = (of_char c :: nat) in
      if 48 \<le> n \<and> n \<le> 57 then Some (n - 48)
      else if 97 \<le> n \<and> n \<le> 102 then Some (n - 87)
      else if 65 \<le> n \<and> n \<le> 70 then Some (n - 55)
      else None)"

definition hex4 :: "char \<Rightarrow> char \<Rightarrow> char \<Rightarrow> char \<Rightarrow> nat option" where
  "hex4 a b c d =
     (case (hex_val a, hex_val b, hex_val c, hex_val d) of
        (Some x, Some y, Some z, Some w) \<Rightarrow> Some (4096 * x + 256 * y + 16 * z + w)
      | _ \<Rightarrow> None)"

definition utf8 :: "nat \<Rightarrow> string" where
  "utf8 n =
     (if n < 128 then [char_of n]
      else if n < 2048 then [char_of (192 + n div 64), char_of (128 + n mod 64)]
      else [char_of (224 + n div 4096), char_of (128 + (n div 64) mod 64), char_of (128 + n mod 64)])"

definition unescape :: "char \<Rightarrow> char option" where
  "unescape e =
     (if e = DQ then Some DQ
      else if e = BS then Some BS
      else if e = CHR ''/'' then Some (CHR ''/'')
      else if e = CHR ''b'' then Some (CHR 0x08)
      else if e = CHR ''f'' then Some (CHR 0x0C)
      else if e = CHR ''n'' then Some (CHR 0x0A)
      else if e = CHR ''r'' then Some (CHR 0x0D)
      else if e = CHR ''t'' then Some (CHR 0x09)
      else None)"

fun parse_chars :: "string \<Rightarrow> (string \<times> string) option" where
  "parse_chars [] = None"
| "parse_chars (c # cs) =
     (if c = DQ then Some ([], cs)
      else if c = BS then
        (case cs of
           [] \<Rightarrow> None
         | e # r \<Rightarrow>
             if e = CHR ''u'' then
               (case r of
                  h1 # h2 # h3 # h4 # r' \<Rightarrow>
                    (case hex4 h1 h2 h3 h4 of
                       None \<Rightarrow> None
                     | Some n \<Rightarrow>
                         if 55296 \<le> n \<and> n \<le> 57343 then None
                         else (case parse_chars r' of
                                 None \<Rightarrow> None
                               | Some (s, t) \<Rightarrow> Some (utf8 n @ s, t)))
                | _ \<Rightarrow> None)
             else
               (case unescape e of
                  None \<Rightarrow> None
                | Some x \<Rightarrow>
                    (case parse_chars r of
                       None \<Rightarrow> None
                     | Some (s, t) \<Rightarrow> Some (x # s, t))))
      else if (of_char c :: nat) < 32 then None
      else (case parse_chars cs of
              None \<Rightarrow> None
            | Some (s, t) \<Rightarrow> Some (c # s, t)))"

definition digit_val :: "char \<Rightarrow> nat" where
  "digit_val c = of_char c - 48"

definition nat_of_digits :: "string \<Rightarrow> nat" where
  "nat_of_digits ds = foldl (\<lambda>n c. 10 * n + digit_val c) 0 ds"

definition parse_number :: "string \<Rightarrow> (int \<times> string) option" where
  "parse_number cs =
     (let neg = (cs \<noteq> [] \<and> hd cs = CHR ''-'');
          body = (if neg then tl cs else cs);
          ds = takeWhile is_digit body;
          rest = dropWhile is_digit body
      in if ds = [] then None
         else if hd ds = CHR ''0'' \<and> tl ds \<noteq> [] then None
         else if rest \<noteq> [] \<and> hd rest \<in> {CHR ''.'', CHR ''e'', CHR ''E''} then None
         else Some (if neg then - int (nat_of_digits ds) else int (nat_of_digits ds), rest))"

definition strip_prefix :: "string \<Rightarrow> string \<Rightarrow> string option" where
  "strip_prefix p cs = (if take (length p) cs = p then Some (drop (length p) cs) else None)"

definition object_of :: "(string \<times> json) list \<Rightarrow> (string \<times> json) list" where
  "object_of ms = foldl (\<lambda>obj m. AList.update (fst m) (snd m) obj) [] ms"

text \<open>
  The parser proper. Its termination rests on the input getting shorter; the tests
  \<open>length t < length cs\<close> after a comma are there for that proof only and never fail
  (\<open>parse_elems_unfold\<close> and \<open>parse_members_unfold\<close> below state the functions
  without them).
\<close>

lemma skip_ws_length: "length (skip_ws cs) \<le> length cs"
  by (simp add: skip_ws_def length_dropWhile_le)

lemma skip_ws_Cons_length: "skip_ws cs = c # r \<Longrightarrow> length r < length cs"
  using skip_ws_length [of cs] by simp

lemma parse_chars_length: "parse_chars cs = Some (s, t) \<Longrightarrow> length t < length cs"
proof (induction cs arbitrary: s t rule: parse_chars.induct)
  case 1
  then show ?case by simp
next
  case (2 c cs)
  then show ?case
    by (fastforce split: if_splits list.splits option.splits)
qed

function parse_value :: "string \<Rightarrow> (json \<times> string) option"
  and parse_elems :: "string \<Rightarrow> (json list \<times> string) option"
  and parse_members :: "string \<Rightarrow> ((string \<times> json) list \<times> string) option"
where
  "parse_value cs =
     (case skip_ws cs of
        [] \<Rightarrow> None
      | c # r \<Rightarrow>
          if c = CHR ''{'' then
            (case skip_ws r of
               [] \<Rightarrow> None
             | d # r' \<Rightarrow>
                 if d = CHR ''}'' then Some (JObj [], r')
                 else (case parse_members (d # r') of
                         None \<Rightarrow> None
                       | Some (ms, t) \<Rightarrow> Some (JObj (object_of ms), t)))
          else if c = CHR ''['' then
            (case skip_ws r of
               [] \<Rightarrow> None
             | d # r' \<Rightarrow>
                 if d = CHR '']'' then Some (JArr [], r')
                 else (case parse_elems (d # r') of
                         None \<Rightarrow> None
                       | Some (xs, t) \<Rightarrow> Some (JArr xs, t)))
          else if c = DQ then
            (case parse_chars r of None \<Rightarrow> None | Some (s, t) \<Rightarrow> Some (JStr s, t))
          else if c = CHR ''t'' then
            (case strip_prefix ''rue'' r of None \<Rightarrow> None | Some t \<Rightarrow> Some (JBool True, t))
          else if c = CHR ''f'' then
            (case strip_prefix ''alse'' r of None \<Rightarrow> None | Some t \<Rightarrow> Some (JBool False, t))
          else if c = CHR ''n'' then
            (case strip_prefix ''ull'' r of None \<Rightarrow> None | Some t \<Rightarrow> Some (JNull, t))
          else (case parse_number (c # r) of None \<Rightarrow> None | Some (i, t) \<Rightarrow> Some (JNum i, t)))"
| "parse_elems cs =
     (case parse_value cs of
        None \<Rightarrow> None
      | Some (x, r) \<Rightarrow>
          (case skip_ws r of
             [] \<Rightarrow> None
           | c # t \<Rightarrow>
               if c = CHR '']'' then Some ([x], t)
               else if c = CHR '','' \<and> length t < length cs then
                 (case parse_elems t of None \<Rightarrow> None | Some (xs, u) \<Rightarrow> Some (x # xs, u))
               else None))"
| "parse_members cs =
     (case skip_ws cs of
        [] \<Rightarrow> None
      | c # r \<Rightarrow>
          if c = DQ then
            (case parse_chars r of
               None \<Rightarrow> None
             | Some (k, r1) \<Rightarrow>
                 (case skip_ws r1 of
                    [] \<Rightarrow> None
                  | c1 # r2 \<Rightarrow>
                      if c1 = CHR '':'' then
                        (case parse_value r2 of
                           None \<Rightarrow> None
                         | Some (v, r3) \<Rightarrow>
                             (case skip_ws r3 of
                                [] \<Rightarrow> None
                              | c3 # r4 \<Rightarrow>
                                  if c3 = CHR ''}'' then Some ([(k, v)], r4)
                                  else if c3 = CHR '','' \<and> length r4 < length cs then
                                    (case parse_members r4 of
                                       None \<Rightarrow> None
                                     | Some (ms, u) \<Rightarrow> Some ((k, v) # ms, u))
                                  else None))
                      else None))
          else None)"
  by pat_completeness auto

termination
  by (relation "measure (\<lambda>x. case x of Inl cs \<Rightarrow> 2 * length cs | Inr (Inl cs) \<Rightarrow> 2 * length cs + 1
                                  | Inr (Inr cs) \<Rightarrow> 2 * length cs + 1)")
    (auto dest!: skip_ws_Cons_length parse_chars_length)

declare parse_value.simps [simp del] parse_elems.simps [simp del] parse_members.simps [simp del]

definition JSON_parse :: "string \<Rightarrow> json option" where
  "JSON_parse s =
     (case parse_value s of
        None \<Rightarrow> None
      | Some (v, r) \<Rightarrow> if skip_ws r = [] then Some v else None)"

subsection \<open>The canonical encoder\<close>

text \<open>
  Modelled from the spec: the packages \<^verbatim>\<open>sort-keys-recursive\<close> and
  \<^verbatim>\<open>json-stringify-deterministic\<close> are dependencies of the chaincode and not part of
  its sources. Section 4.1 of the specification describes them: the keys of the record
  and of every nested mapping are sorted in ascending lexicographic order, the elements
  of an array keep their order, and the result is serialised compactly. Both are pure:
  \<open>sortKeysRecursive\<close> returns a new value and leaves its argument as it was.
\<close>

fun sortKeysRecursive :: "json \<Rightarrow> json"
  and sort_elems :: "json list \<Rightarrow> json list"
  and sort_members :: "(string \<times> json) list \<Rightarrow> (string \<times> json) list"
where
  "sortKeysRecursive (JArr xs) = JArr (sort_elems xs)"
| "sortKeysRecursive (JObj ms) = JObj (sort_key fst (sort_members ms))"
| "sortKeysRecursive JNull = JNull"
| "sortKeysRecursive (JBool b) = JBool b"
| "sortKeysRecursive (JNum i) = JNum i"
| "sortKeysRecursive (JStr s) = JStr s"
| "sort_elems [] = []"
| "sort_elems (x # xs) = sortKeysRecursive x # sort_elems xs"
| "sort_members [] = []"
| "sort_members (m # ms) = (fst m, sortKeysRecursive (snd m)) # sort_members ms"

definition stringify :: "json \<Rightarrow> string" where
  "stringify v = JSON_stringify (sortKeysRecursive v)"

subsection \<open>Sorted keys\<close>

text \<open>
  In what \<open>JSON_stringify\<close> prints, a number is followed by a comma, by a closing
  bracket or brace, or by nothing: \<open>number_end\<close>. A value has its keys sorted when the
  keys of each of its objects, at any depth, stand in ascending order.
\<close>

definition number_end :: "string \<Rightarrow> bool" where
  "number_end rest = (rest = [] \<or> hd rest \<in> {CHR '','', CHR '']'', CHR ''}''})"

fun keys_sorted :: "json \<Rightarrow> bool"
  and keys_sorted_elems :: "json list \<Rightarrow> bool"
  and keys_sorted_members :: "(string \<times> json) list \<Rightarrow> bool"
where
  "keys_sorted (JArr xs) = keys_sorted_elems xs"
| "keys_sorted (JObj ms) = (sorted (map fst ms) \<and> keys_sorted_members ms)"
| "keys_sorted _ = True"
| "keys_sorted_elems [] = True"
| "keys_sorted_elems (x # xs) = (keys_sorted x \<and> keys_sorted_elems xs)"
| "keys_sorted_members [] = True"
| "keys_sorted_members (m # ms) = (keys_sorted (snd m) \<and> keys_sorted_members ms)"

section \<open>The world state\<close>

text \<open>
  Modelled from the spec: \<^verbatim>\<open>ctx.stub\<close> is the key-value store of the host (section 6 of
  the specification), which is not part of the chaincode: \<open>get(key)\<close> gives the bytes or
  nothing, \<open>put(key, bytes)\<close> and \<open>delete(key)\<close> succeed or fail, a scan with empty
  bounds gives every entry of the namespace. \<open>states\<close> lists the entries in scan order.
  A call of the stub can be rejected by the host: \<open>faults\<close> says, call by call, which of
  the coming calls are (\<open>True\<close>), and no call is rejected once the list is used up.
\<close>

datatype error =
    Error string
  | StoreError
  | SyntaxError
  | TypeError

record stub =
  states :: "(string \<times> string) list"
  faults :: "bool list"

definition next_fault :: "stub \<Rightarrow> bool \<times> stub" where
  "next_fault s = (case faults s of [] \<Rightarrow> (False, s) | f # fs \<Rightarrow> (f, s\<lparr>faults := fs\<rparr>))"

definition getState :: "stub \<Rightarrow> string \<Rightarrow> (error + string option) \<times> stub" where
  "getState s key =
     (case next_fault s of
        (True, s') \<Rightarrow> (Inl StoreError, s')
      | (False, s') \<Rightarrow> (Inr (map_of (states s') key), s'))"

definition putState :: "stub \<Rightarrow> string \<Rightarrow> string \<Rightarrow> (error + unit) \<times> stub" where
  "putState s key bytes =
     (case next_fault s of
        (True, s') \<Rightarrow> (Inl StoreError, s')
      | (False, s') \<Rightarrow> (Inr (), s'\<lparr>states := AList.update key bytes (states s')\<rparr>))"

definition deleteState :: "stub \<Rightarrow> string \<Rightarrow> (error + unit) \<times> stub" where
  "deleteState s key =
     (case next_fault s of
        (True, s') \<Rightarrow> (Inl StoreError, s')
      | (False, s') \<Rightarrow> (Inr (), s'\<lparr>states := AList.delete key (states s')\<rparr>))"

text \<open>
  \<^verbatim>\<open>getStateByRange('', '')\<close>, the only range the chaincode asks for. The iterator it
  returns is the list of the entries still to come.
\<close>

definition getStateByRange :: "stub \<Rightarrow> (error + (string \<times> string) list) \<times> stub" where
  "getStateByRange s =
     (case next_fault s of
        (True, s') \<Rightarrow> (Inl StoreError, s')
      | (False, s') \<Rightarrow> (Inr (states s'), s'))"

section \<open>The contract \<^verbatim>\<open>AssetTransfer\<close>\<close>

text \<open>
  The handlers of \<^verbatim>\<open>lib/assetTransfer.js\<close>. Each takes the stub and returns the stub
  it leaves, with the value it returns or the error it throws. \<^verbatim>\<open>id\<close> is a string; the
  other arguments are JSON values (a client sends strings, the tests pass numbers).
\<close>

definition AlreadyExists :: "string \<Rightarrow> error" where
  "AlreadyExists id' = Error (''The asset '' @ id' @ '' already exists'')"

definition NotFound :: "string \<Rightarrow> error" where
  "NotFound id' = Error (''The asset '' @ id' @ '' does not exist'')"

definition seed_assets :: "(string \<times> json) list list" where
  "seed_assets =
     [[(''id'', JStr ''asset1''), (''game_name'', JStr ''game1''), (''owner_name'', JStr ''Tomoko''),
       (''owner_type'', JStr ''player''), (''game_value'', JNum 300)],
      [(''id'', JStr ''asset2''), (''game_name'', JStr ''game2''), (''owner_name'', JStr ''Brad''),
       (''owner_type'', JStr ''player''), (''game_value'', JNum 400)],
      [(''id'', JStr ''asset3''), (''game_name'', JStr ''game3''), (''owner_name'', JStr ''Jin Soo''),
       (''owner_type'', JStr ''player''), (''game_value'', JNum 500)],
      [(''id'', JStr ''asset4''), (''game_name'', JStr ''game4''), (''owner_name'', JStr ''Max''),
       (''owner_type'', JStr ''player''), (''game_value'', JNum 600)],
      [(''id'', JStr ''asset5''), (''game_name'', JStr ''game5''), (''owner_name'', JStr ''Adriana''),
       (''owner_type'', JStr ''player''), (''game_value'', JNum 700)],
      [(''id'', JStr ''asset6''), (''game_name'', JStr ''game6''), (''owner_name'', JStr ''Michel''),
       (''owner_type'', JStr ''player''), (''game_value'', JNum 800)]]"

text \<open>
  The loop of \<^verbatim>\<open>InitLedger\<close>: \<^verbatim>\<open>asset.docType = 'asset'\<close>, then the write under
  \<^verbatim>\<open>asset.id\<close>. A rejected write ends the loop: the exception leaves the handler. (Every
  seed has a string \<^verbatim>\<open>id\<close>; the last case is there for totality.)
\<close>

fun InitLedger_loop :: "stub \<Rightarrow> (string \<times> json) list list \<Rightarrow> (error + unit) \<times> stub" where
  "InitLedger_loop s [] = (Inr (), s)"
| "InitLedger_loop s (asset # assets) =
     (let tagged = AList.update ''docType'' (JStr ''asset'') asset in
      case map_of tagged ''id'' of
        Some (JStr key) \<Rightarrow>
          (case putState s key (stringify (sortKeysRecursive (JObj tagged))) of
             (Inl e, s') \<Rightarrow> (Inl e, s')
           | (Inr u, s') \<Rightarrow> InitLedger_loop s' assets)
      | _ \<Rightarrow> (Inl TypeError, s))"

definition InitLedger :: "stub \<Rightarrow> (error + unit) \<times> stub" where
  "InitLedger s = InitLedger_loop s seed_assets"

text \<open>
  \<^verbatim>\<open>return assetJSON && assetJSON.length > 0\<close>. When the stub gives nothing for the key
  (\<^verbatim>\<open>undefined\<close>, as the stub of the chaincode's tests does for a missing key), \<^verbatim>\<open>&&\<close>
  hands that \<^verbatim>\<open>undefined\<close> on; a buffer is truthy even when it is empty, and the result is
  then the boolean \<^verbatim>\<open>assetJSON.length > 0\<close>. The callers test the result with
  \<^verbatim>\<open>if (exists)\<close> and \<^verbatim>\<open>if (!exists)\<close>: \<open>truthy\<close>.
\<close>

datatype answer = Undefined | Boolean bool

definition truthy :: "answer \<Rightarrow> bool" where
  "truthy a = (a = Boolean True)"

definition AssetExists :: "stub \<Rightarrow> string \<Rightarrow> (error + answer) \<times> stub" where
  "AssetExists s id' =
     (case getState s id' of
        (Inl e, s') \<Rightarrow> (Inl e, s')
      | (Inr assetJSON, s') \<Rightarrow>
          (Inr (case assetJSON of None \<Rightarrow> Undefined | Some bytes \<Rightarrow> Boolean (0 < length bytes)), s'))"

definition new_asset :: "string \<Rightarrow> json \<Rightarrow> json \<Rightarrow> json \<Rightarrow> json \<Rightarrow> json" where
  "new_asset id' gameName ownerName ownerType gameValue =
     JObj [(''id'', JStr id'), (''game_name'', gameName), (''owner_name'', ownerName),
           (''owner_type'', ownerType), (''game_value'', gameValue)]"

definition CreateAsset :: "stub \<Rightarrow> string \<Rightarrow> json \<Rightarrow> json \<Rightarrow> json \<Rightarrow> json \<Rightarrow> (error + string) \<times> stub" where
  "CreateAsset s id' gameName ownerName ownerType gameValue =
     (case AssetExists s id' of
        (Inl e, s1) \<Rightarrow> (Inl e, s1)
      | (Inr exists, s1) \<Rightarrow>
          if truthy exists then (Inl (AlreadyExists id'), s1)
          else
            (let asset = new_asset id' gameName ownerName ownerType gameValue in
             case putState s1 id' (stringify (sortKeysRecursive asset)) of
               (Inl e, s2) \<Rightarrow> (Inl e, s2)
             | (Inr u, s2) \<Rightarrow> (Inr (JSON_stringify asset), s2)))"

definition ReadAsset :: "stub \<Rightarrow> string \<Rightarrow> (error + string) \<times> stub" where
  "ReadAsset s id' =
     (case getState s id' of
        (Inl e, s') \<Rightarrow> (Inl e, s')
      | (Inr assetJSON, s') \<Rightarrow>
          (case assetJSON of
             None \<Rightarrow> (Inl (NotFound id'), s')
           | Some bytes \<Rightarrow> if length bytes = 0 then (Inl (NotFound id'), s') else (Inr bytes, s')))"

definition UpdateAsset :: "stub \<Rightarrow> string \<Rightarrow> json \<Rightarrow> json \<Rightarrow> json \<Rightarrow> json \<Rightarrow> (error + unit) \<times> stub" where
  "UpdateAsset s id' gameName ownerName ownerType gameValue =
     (case AssetExists s id' of
        (Inl e, s1) \<Rightarrow> (Inl e, s1)
      | (Inr exists, s1) \<Rightarrow>
          if \<not> truthy exists then (Inl (NotFound id'), s1)
          else
            (let updatedAsset = new_asset id' gameName ownerName ownerType gameValue in
             putState s1 id' (stringify (sortKeysRecursive updatedAsset))))"

definition DeleteAsset :: "stub \<Rightarrow> string \<Rightarrow> (error + unit) \<times> stub" where
  "DeleteAsset s id' =
     (case AssetExists s id' of
        (Inl e, s1) \<Rightarrow> (Inl e, s1)
      | (Inr exists, s1) \<Rightarrow>
          if \<not> truthy exists then (Inl (NotFound id'), s1)
          else deleteState s1 id')"

text \<open>
  Reading and writing a property of a parsed value, in strict mode. Reading a property of
  \<^verbatim>\<open>null\<close> throws; a value without the property gives \<^verbatim>\<open>undefined\<close> (\<open>None\<close>). Writing a
  property of \<^verbatim>\<open>null\<close> or of a primitive value throws; on an object the property is
  replaced where it stands or added last; on an array a named property is no element and
  is never serialised, so the array is left as it is.
\<close>

fun get_prop :: "json \<Rightarrow> string \<Rightarrow> error + json option" where
  "get_prop JNull k = Inl TypeError"
| "get_prop (JObj ms) k = Inr (map_of ms k)"
| "get_prop _ k = Inr None"

fun set_prop :: "json \<Rightarrow> string \<Rightarrow> json \<Rightarrow> error + json" where
  "set_prop (JObj ms) k v = Inr (JObj (AList.update k v ms))"
| "set_prop (JArr xs) k v = Inr (JArr xs)"
| "set_prop _ k v = Inl TypeError"

definition TransferAsset :: "stub \<Rightarrow> string \<Rightarrow> json \<Rightarrow> (error + string) \<times> stub" where
  "TransferAsset s id' newOwnerName =
     (case ReadAsset s id' of
        (Inl e, s1) \<Rightarrow> (Inl e, s1)
      | (Inr assetString, s1) \<Rightarrow>
          (case JSON_parse assetString of
             None \<Rightarrow> (Inl SyntaxError, s1)
           | Some asset \<Rightarrow>
               (case get_prop asset ''owner_name'' of
                  Inl e \<Rightarrow> (Inl e, s1)
                | Inr oldOwnerName \<Rightarrow>
                    (case set_prop asset ''owner_name'' newOwnerName of
                       Inl e \<Rightarrow> (Inl e, s1)
                     | Inr asset' \<Rightarrow>
                         (case putState s1 id' (stringify (sortKeysRecursive asset')) of
                            (Inl e, s2) \<Rightarrow> (Inl e, s2)
                          | (Inr u, s2) \<Rightarrow>
                              (Inr (JSON_stringify
                                     (JObj (case oldOwnerName of
                                              None \<Rightarrow> []
                                            | Some old \<Rightarrow> [(''oldOwnerName'', old)]))),
                               s2))))))"

text \<open>
  The loop of \<^verbatim>\<open>GetAllAssets\<close> over the iterator: a value that does not parse is kept
  as the string it is.
\<close>

fun GetAllAssets_loop :: "(string \<times> string) list \<Rightarrow> json list \<Rightarrow> json list" where
  "GetAllAssets_loop [] allResults = allResults"
| "GetAllAssets_loop (result # iterator) allResults =
     (let strValue = snd result;
          record = (case JSON_parse strValue of None \<Rightarrow> JStr strValue | Some parsed \<Rightarrow> parsed)
      in GetAllAssets_loop iterator (allResults @ [record]))"

definition GetAllAssets :: "stub \<Rightarrow> (error + string) \<times> stub" where
  "GetAllAssets s =
     (case getStateByRange s of
        (Inl e, s') \<Rightarrow> (Inl e, s')
      | (Inr iterator, s') \<Rightarrow> (Inr (JSON_stringify (JArr (GetAllAssets_loop iterator []))), s'))"

section \<open>Notions used in the statements\<close>

subsection \<open>Stores and replies\<close>

text \<open>An asset exists when a non-empty value is stored under its key.\<close>

definition present :: "stub \<Rightarrow> string \<Rightarrow> bool" where
  "present s id' = (case map_of (states s) id' of None \<Rightarrow> False | Some bytes \<Rightarrow> bytes \<noteq> [])"

text \<open>
  What \<^verbatim>\<open>AssetExists\<close> answers on a store: \<^verbatim>\<open>undefined\<close> for a missing key, else whether
  the value is non-empty.
\<close>

definition exists_answer :: "stub \<Rightarrow> string \<Rightarrow> answer" where
  "exists_answer s id' =
     (case map_of (states s) id' of None \<Rightarrow> Undefined | Some bytes \<Rightarrow> Boolean (bytes \<noteq> []))"


text \<open>The empty store of a host that rejects no call.\<close>

definition empty_stub :: stub where
  "empty_stub = \<lparr>states = [], faults = []\<rparr>"

text \<open>What \<^verbatim>\<open>TransferAsset\<close> returns: \<^verbatim>\<open>JSON.stringify({ oldOwnerName })\<close>.\<close>

definition transfer_reply :: "json option \<Rightarrow> string" where
  "transfer_reply oldOwnerName =
     JSON_stringify (JObj (case oldOwnerName of None \<Rightarrow> [] | Some old \<Rightarrow> [(''oldOwnerName'', old)]))"

text \<open>
  The scenario of the specification: \<^verbatim>\<open>asset1\<close> created with Chess, Robert, player, 100
  in an empty store.
\<close>

definition chess_asset :: json where
  "chess_asset = new_asset ''asset1'' (JStr ''Chess'') (JStr ''Robert'') (JStr ''player'') (JNum 100)"

definition chess_stub :: stub where
  "chess_stub = \<lparr>states = [(''asset1'', stringify (sortKeysRecursive chess_asset))], faults = []\<rparr>"

subsection \<open>The writes of \<^verbatim>\<open>InitLedger\<close>\<close>

text \<open>
  \<open>write_all\<close> is a sequence of accepted writes; \<open>seed_writes\<close> are the key and the bytes
  the loop of \<^verbatim>\<open>InitLedger\<close> computes for each seed.
\<close>

definition write_all :: "(string \<times> string) list \<Rightarrow> (string \<times> string) list \<Rightarrow> (string \<times> string) list" where
  "write_all writes st = foldl (\<lambda>st w. AList.update (fst w) (snd w) st) st writes"

definition seed_writes :: "(string \<times> string) list" where
  "seed_writes =
     map (\<lambda>asset. (case map_of asset ''id'' of Some (JStr key) \<Rightarrow> key | _ \<Rightarrow> [],
                    stringify (sortKeysRecursive (JObj (AList.update ''docType'' (JStr ''asset'') asset)))))
       seed_assets"

text \<open>
  The key and the bytes the loop computes for any asset, when the asset has a string
  \<^verbatim>\<open>id\<close>.
\<close>

definition asset_write :: "(string \<times> json) list \<Rightarrow> (string \<times> string) option" where
  "asset_write asset =
     (case map_of (AList.update ''docType'' (JStr ''asset'') asset) ''id'' of
        Some (JStr key) \<Rightarrow>
          Some (key, stringify (sortKeysRecursive (JObj (AList.update ''docType'' (JStr ''asset'') asset))))
      | _ \<Rightarrow> None)"

subsection \<open>Canonical texts and stored records\<close>

text \<open>
  A text is canonical when it is what printing its own parse gives back and every object
  in it has its keys in ascending order. A tagged record is an object with
  \<^verbatim>\<open>docType = "asset"\<close> whose \<^verbatim>\<open>id\<close> is the key it is stored under.
\<close>

definition canonical :: "string \<Rightarrow> bool" where
  "canonical bytes =
     (case JSON_parse bytes of
        None \<Rightarrow> False
      | Some v \<Rightarrow> keys_sorted v \<and> JSON_stringify v = bytes)"

definition tagged_record :: "string \<Rightarrow> string \<Rightarrow> bool" where
  "tagged_record key bytes =
     (case JSON_parse bytes of
        Some (JObj ms) \<Rightarrow> map_of ms ''docType'' = Some (JStr ''asset'') \<and> map_of ms ''id'' = Some (JStr key)
      | _ \<Rightarrow> False)"

text \<open>A host that accepts two calls and rejects the third.\<close>

definition failing_stub :: stub where
  "failing_stub = \<lparr>states = [], faults = [False, False, True]\<rparr>"

text \<open>The names of the fields of a stored record, in the order of the text.\<close>

definition fields_of :: "string \<Rightarrow> string list" where
  "fields_of bytes = (case JSON_parse bytes of Some (JObj ms) \<Rightarrow> map fst ms | _ \<Rightarrow> [])"

text \<open>
  \<open>decode_or_raw\<close> is the body of the loop of \<^verbatim>\<open>GetAllAssets\<close>; \<open>create_all\<close> runs
  \<^verbatim>\<open>CreateAsset\<close> for a list of records, one after the other.
\<close>

definition decode_or_raw :: "string \<Rightarrow> json" where
  "decode_or_raw strValue = (case JSON_parse strValue of None \<Rightarrow> JStr strValue | Some parsed \<Rightarrow> parsed)"

fun create_all :: "stub \<Rightarrow> (string \<times> json \<times> json \<times> json \<times> json) list \<Rightarrow> stub" where
  "create_all s [] = s"
| "create_all s ((k, gn, own, ot, gv) # rs) = create_all (snd (CreateAsset s k gn own ot gv)) rs"

text \<open>A store whose first value is not JSON, as in the chaincode's test.\<close>

definition mixed_stub :: stub where
  "mixed_stub = \<lparr>states = [(''asset1'', ''non-json-value''),
                            (''asset2'', stringify (sortKeysRecursive
                               (new_asset ''asset2'' (JStr ''Poker'') (JStr ''Paul'') (JStr ''player'') (JNum 200))))],
                  faults = []\<rparr>"


text \<open>
  Two values are the same record when they differ at most in the order of the fields of
  their objects: the same keys, and under each key the same record again.
\<close>

inductive same_record :: "json \<Rightarrow> json \<Rightarrow> bool" where
  same_value: "same_record v v"
| same_array: "list_all2 same_record xs ys \<Longrightarrow> same_record (JArr xs) (JArr ys)"
| same_object:
    "distinct (map fst ms) \<Longrightarrow> distinct (map fst ns) \<Longrightarrow> set (map fst ms) = set (map fst ns) \<Longrightarrow>
     (\<forall>k v w. map_of ms k = Some v \<longrightarrow> map_of ns k = Some w \<longrightarrow> same_record v w) \<Longrightarrow>
     same_record (JObj ms) (JObj ns)"

text \<open>
  A text is compact when no white space stands outside its string literals. \<open>lex_scan\<close>
  reads the text and keeps track of being outside a string, inside one, or behind a
  backslash in one.
\<close>

datatype lex = Outside | Inside | Escaped

fun lex_step :: "lex \<Rightarrow> char \<Rightarrow> lex option" where
  "lex_step Outside c = (if is_ws c then None else if c = DQ then Some Inside else Some Outside)"
| "lex_step Inside c = (if c = BS then Some Escaped else if c = DQ then Some Outside else Some Inside)"
| "lex_step Escaped c = Some Inside"

fun lex_scan :: "lex \<Rightarrow> string \<Rightarrow> lex option" where
  "lex_scan st [] = Some st"
| "lex_scan st (c # cs) = (case lex_step st c of None \<Rightarrow> None | Some st' \<Rightarrow> lex_scan st' cs)"

definition compact :: "string \<Rightarrow> bool" where
  "compact bytes = (lex_scan Outside bytes = Some Outside)"

text \<open>The scenario's asset with its fields set in another order.\<close>

definition chess_asset_reordered :: json where
  "chess_asset_reordered =
     JObj [(''owner_type'', JStr ''player''), (''game_value'', JNum 100), (''owner_name'', JStr ''Robert''),
           (''id'', JStr ''asset1''), (''game_name'', JStr ''Chess'')]"

subsection \<open>Sequences of transactions\<close>

text \<open>
  A transaction is a call of one handler; \<open>run\<close> makes the calls of a list one after
  the other, each on the store the one before left, whether it failed or not. In
  \<open>store_ok\<close> every stored value parses to an object whose \<^verbatim>\<open>id\<close> is its key.
\<close>

datatype op =
    InitLedgerOp
  | CreateAssetOp string json json json json
  | ReadAssetOp string
  | UpdateAssetOp string json json json json
  | DeleteAssetOp string
  | AssetExistsOp string
  | TransferAssetOp string json
  | GetAllAssetsOp

fun apply_op :: "stub \<Rightarrow> op \<Rightarrow> stub" where
  "apply_op s InitLedgerOp = snd (InitLedger s)"
| "apply_op s (CreateAssetOp k gn own ot gv) = snd (CreateAsset s k gn own ot gv)"
| "apply_op s (ReadAssetOp k) = snd (ReadAsset s k)"
| "apply_op s (UpdateAssetOp k gn own ot gv) = snd (UpdateAsset s k gn own ot gv)"
| "apply_op s (DeleteAssetOp k) = snd (DeleteAsset s k)"
| "apply_op s (AssetExistsOp k) = snd (AssetExists s k)"
| "apply_op s (TransferAssetOp k newOwner) = snd (TransferAsset s k newOwner)"
| "apply_op s GetAllAssetsOp = snd (GetAllAssets s)"

fun wf_op :: "op \<Rightarrow> bool" where
  "wf_op (CreateAssetOp k gn own ot gv) = (wf_json gn \<and> wf_json own \<and> wf_json ot \<and> wf_json gv)"
| "wf_op (UpdateAssetOp k gn own ot gv) = (wf_json gn \<and> wf_json own \<and> wf_json ot \<and> wf_json gv)"
| "wf_op (TransferAssetOp k newOwner) = wf_json newOwner"
| "wf_op _ = True"

definition run :: "stub \<Rightarrow> op list \<Rightarrow> stub" where
  "run s ops = foldl apply_op s ops"

definition record_ok :: "string \<Rightarrow> string \<Rightarrow> bool" where
  "record_ok key bytes =
     (case JSON_parse bytes of
        Some (JObj ms) \<Rightarrow> map_of ms ''id'' = Some (JStr key)
      | _ \<Rightarrow> False)"

definition store_ok :: "stub \<Rightarrow> bool" where
  "store_ok s = list_all (\<lambda>w. record_ok (fst w) (snd w)) (states s)"

section \<open>Properties of the JSON model\<close>

subsection \<open>Numbers are read back\<close>

lemma digit_char_cases:
  "d < 10 \<Longrightarrow> d = 0 \<or> d = 1 \<or> d = 2 \<or> d = 3 \<or> d = 4 \<or> d = 5 \<or> d = 6 \<or> d = 7 \<or> d = 8 \<or> d = (9::nat)"
  by arith

lemma is_digit_digit_char: "d < 10 \<Longrightarrow> is_digit (digit_char d)"
  using digit_char_cases [of d] by (auto simp: is_digit_def digit_char_def)

lemma digit_val_digit_char: "d < 10 \<Longrightarrow> digit_val (digit_char d) = d"
  using digit_char_cases [of d] by (auto simp: digit_val_def digit_char_def)

lemma digit_char_zero: "d < 10 \<Longrightarrow> digit_char d = CHR ''0'' \<longleftrightarrow> d = 0"
  using digit_char_cases [of d] by (auto simp: digit_char_def)

lemma digits_of_digits: "\<forall>c \<in> set (digits_of n). is_digit c"
  by (induction n rule: digits_of.induct) (subst digits_of.simps, simp add: is_digit_digit_char)

lemma digits_of_nonempty: "digits_of n \<noteq> []"
  by (subst digits_of.simps) simp

lemma nat_of_digits_snoc: "nat_of_digits (ds @ [c]) = 10 * nat_of_digits ds + digit_val c"
  by (simp add: nat_of_digits_def)

lemma nat_of_digits_of: "nat_of_digits (digits_of n) = n"
proof (induction n rule: digits_of.induct)
  case (1 n)
  show ?case
  proof (cases "n < 10")
    case True
    then show ?thesis
      by (subst digits_of.simps) (simp add: nat_of_digits_def digit_val_digit_char)
  next
    case False
    with 1 show ?thesis
      by (subst digits_of.simps) (simp add: nat_of_digits_snoc digit_val_digit_char)
  qed
qed

lemma hd_digits_of: "hd (digits_of n) = CHR ''0'' \<Longrightarrow> n = 0"
proof (induction n rule: digits_of.induct)
  case (1 n)
  show ?case
  proof (cases "n < 10")
    case True
    with 1(2) show ?thesis
      by (subst (asm) digits_of.simps) (simp add: digit_char_zero)
  next
    case False
    with 1(2) have "hd (digits_of (n div 10)) = CHR ''0''"
      by (subst (asm) digits_of.simps) (simp add: digits_of_nonempty)
    with 1(1) False have "n div 10 = 0" by simp
    with False show ?thesis by simp
  qed
qed

lemma digits_of_zero: "digits_of 0 = ''0''"
  by (subst digits_of.simps) (simp add: digit_char_def)

lemma number_end_not_digit: "number_end (c # r) \<Longrightarrow> \<not> is_digit c"
  by (auto simp: number_end_def is_digit_def)

lemma takeWhile_digits:
  "number_end rest \<Longrightarrow> takeWhile is_digit (digits_of n @ rest) = digits_of n"
  using digits_of_digits [of n]
  by (cases rest) (auto simp: takeWhile_append number_end_not_digit takeWhile_eq_all_conv)

lemma dropWhile_digits:
  "number_end rest \<Longrightarrow> dropWhile is_digit (digits_of n @ rest) = rest"
  using digits_of_digits [of n]
  by (cases rest) (auto simp: dropWhile_append number_end_not_digit)

lemma digits_of_not_minus: "hd (digits_of n) \<noteq> CHR ''-''"
proof -
  have "is_digit (hd (digits_of n))"
    using digits_of_digits [of n] digits_of_nonempty [of n] by (cases "digits_of n") auto
  then show ?thesis by (auto simp: is_digit_def)
qed

lemma parse_number_nat:
  assumes "number_end rest"
  shows "parse_number (digits_of n @ rest) = Some (int n, rest)"
proof -
  have nm: "hd (digits_of n @ rest) \<noteq> CHR ''-''"
    using digits_of_not_minus [of n] digits_of_nonempty [of n] by simp
  have z: "\<not> (hd (digits_of n) = CHR ''0'' \<and> tl (digits_of n) \<noteq> [])"
    using hd_digits_of [of n] digits_of_zero by auto
  have e: "\<not> (rest \<noteq> [] \<and> hd rest \<in> {CHR ''.'', CHR ''e'', CHR ''E''})"
    using assms by (auto simp: number_end_def)
  show ?thesis
    using nm z e
    by (simp add: parse_number_def Let_def takeWhile_digits [OF assms] dropWhile_digits [OF assms]
        digits_of_nonempty nat_of_digits_of del: insert_iff)
qed

lemma parse_number_neg:
  assumes "number_end rest"
  shows "parse_number (CHR ''-'' # digits_of n @ rest) = Some (- int n, rest)"
proof -
  have z: "\<not> (hd (digits_of n) = CHR ''0'' \<and> tl (digits_of n) \<noteq> [])"
    using hd_digits_of [of n] digits_of_zero by auto
  have e: "\<not> (rest \<noteq> [] \<and> hd rest \<in> {CHR ''.'', CHR ''e'', CHR ''E''})"
    using assms by (auto simp: number_end_def)
  show ?thesis
    using z e
    by (simp add: parse_number_def Let_def takeWhile_digits [OF assms] dropWhile_digits [OF assms]
        digits_of_nonempty nat_of_digits_of del: insert_iff)
qed

lemma parse_number_show_int:
  "number_end rest \<Longrightarrow> parse_number (show_int i @ rest) = Some (i, rest)"
  by (simp add: show_int_def parse_number_nat parse_number_neg)

subsection \<open>Strings are read back\<close>

lemma hex_cases:
  "d < 16 \<Longrightarrow> d = 0 \<or> d = 1 \<or> d = 2 \<or> d = 3 \<or> d = 4 \<or> d = 5 \<or> d = 6 \<or> d = 7 \<or> d = 8 \<or> d = 9
     \<or> d = 10 \<or> d = 11 \<or> d = 12 \<or> d = 13 \<or> d = 14 \<or> d = (15::nat)"
  by arith

lemma hex_val_digit_char: "d < 16 \<Longrightarrow> hex_val (digit_char d) = Some d"
  using hex_cases [of d] by (auto simp: hex_val_def digit_char_def)

lemma hex4_control:
  assumes "n < 32"
  shows "hex4 (CHR ''0'') (CHR ''0'') (digit_char (n div 16)) (digit_char (n mod 16)) = Some n"
proof -
  have "n div 16 < 16" using assms by simp
  then have a: "hex_val (digit_char (n div 16)) = Some (n div 16)" by (rule hex_val_digit_char)
  have b: "hex_val (digit_char (n mod 16)) = Some (n mod 16)" by (rule hex_val_digit_char) simp
  have z: "hex_val (CHR ''0'') = Some 0" by (simp add: hex_val_def)
  show ?thesis by (simp add: hex4_def a b z)
qed

lemma utf8_of_char: "(of_char c :: nat) < 128 \<Longrightarrow> utf8 (of_char c) = [c]"
  by (simp add: utf8_def)

lemma parse_chars_escape:
  "parse_chars (escape_char c @ cs) =
     (case parse_chars cs of None \<Rightarrow> None | Some (s, t) \<Rightarrow> Some (c # s, t))"
proof (cases "c = DQ \<or> c = BS \<or> c = CHR 0x08 \<or> c = CHR 0x0C \<or> c = CHR 0x0A \<or> c = CHR 0x0D \<or> c = CHR 0x09")
  case True
  then show ?thesis
    by (auto simp: escape_char_def unescape_def)
next
  case False
  note plain = this
  show ?thesis
  proof (cases "(of_char c :: nat) < 32")
    case True
    then have "hex4 (CHR ''0'') (CHR ''0'') (digit_char (of_char c div 16)) (digit_char (of_char c mod 16))
                 = Some (of_char c)"
      by (rule hex4_control)
    moreover have "utf8 (of_char c) = [c]" using True by (simp add: utf8_of_char)
    ultimately show ?thesis
      using plain True by (simp add: escape_char_def split: option.splits)
  next
    case False
    with plain show ?thesis
      by (simp add: escape_char_def)
  qed
qed

lemma parse_chars_body:
  "parse_chars (concat (map escape_char s) @ DQ # rest) = Some (s, rest)"
  by (induction s) (simp_all add: parse_chars_escape)

subsection \<open>Parsing what was printed\<close>

lemma skip_ws_Nil [simp]: "skip_ws [] = []"
  by (simp add: skip_ws_def)

lemma skip_ws_Cons [simp]: "skip_ws (c # cs) = (if is_ws c then skip_ws cs else c # cs)"
  by (simp add: skip_ws_def)

lemma show_int_Cons: "\<exists>c r. show_int i = c # r \<and> (c = CHR ''-'' \<or> is_digit c)"
proof -
  obtain c r where cr: "digits_of (nat \<bar>i\<bar>) = c # r"
    using digits_of_nonempty [of "nat \<bar>i\<bar>"] by (cases "digits_of (nat \<bar>i\<bar>)") auto
  then have "is_digit c"
    using digits_of_digits [of "nat \<bar>i\<bar>"] by simp
  with cr show ?thesis
    by (cases "i < 0") (auto simp: show_int_def abs_if)
qed

lemma parse_value_number:
  assumes "number_end rest"
  shows "parse_value (show_int i @ rest) = Some (JNum i, rest)"
proof -
  obtain c r where cr: "show_int i = c # r" and c: "c = CHR ''-'' \<or> is_digit c"
    using show_int_Cons by blast
  have "parse_number (c # r @ rest) = Some (i, rest)"
    using parse_number_show_int [OF assms, of i] cr by simp
  moreover have "\<not> is_ws c" "c \<noteq> CHR ''{''" "c \<noteq> CHR ''[''" "c \<noteq> DQ"
    "c \<noteq> CHR ''t''" "c \<noteq> CHR ''f''" "c \<noteq> CHR ''n''"
    using c by (auto simp: is_digit_def is_ws_def)
  ultimately show ?thesis
    by (subst parse_value.simps) (simp add: cr)
qed

lemma parse_value_string: "parse_value (quote s @ rest) = Some (JStr s, rest)"
  by (subst parse_value.simps) (simp add: quote_def parse_chars_body is_ws_def)

lemma parse_value_literal:
  "parse_value (''null'' @ rest) = Some (JNull, rest)"
  "parse_value (''true'' @ rest) = Some (JBool True, rest)"
  "parse_value (''false'' @ rest) = Some (JBool False, rest)"
  by (subst parse_value.simps, simp add: is_ws_def strip_prefix_def)+

lemma update_fresh: "k \<notin> fst ` set al \<Longrightarrow> AList.update k v al = al @ [(k, v)]"
  by (induction al) auto

lemma foldl_update_distinct:
  "distinct (map fst (acc @ ms)) \<Longrightarrow>
     foldl (\<lambda>obj m. AList.update (fst m) (snd m) obj) acc ms = acc @ ms"
proof (induction ms arbitrary: acc)
  case Nil
  then show ?case by simp
next
  case (Cons m ms)
  from Cons.prems have "fst m \<notin> fst ` set acc" by auto
  then have "AList.update (fst m) (snd m) acc = acc @ [m]"
    by (simp add: update_fresh)
  moreover have "distinct (map fst ((acc @ [m]) @ ms))"
    using Cons.prems by simp
  ultimately show ?case
    using Cons.IH [of "acc @ [m]"] by simp
qed

lemma object_of_distinct: "distinct (map fst ms) \<Longrightarrow> object_of ms = ms"
  using foldl_update_distinct [of "[]" ms] by (simp add: object_of_def)

lemma stringify_members_Cons:
  "ms \<noteq> [] \<Longrightarrow> \<exists>r. stringify_members ms = DQ # r"
proof (cases ms)
  case (Cons m ms')
  then show ?thesis by (cases ms') (auto simp: quote_def)
qed simp

lemma JSON_stringify_Cons:
  "\<exists>c r. JSON_stringify v = c # r \<and> \<not> is_ws c \<and> c \<noteq> CHR '']''"
proof (cases v)
  case (JNum i)
  then show ?thesis
    using show_int_Cons [of i] by (auto simp: is_ws_def is_digit_def)
qed (auto simp: quote_def is_ws_def)

lemma stringify_elems_Cons:
  "xs \<noteq> [] \<Longrightarrow> \<exists>c r. stringify_elems xs = c # r \<and> \<not> is_ws c \<and> c \<noteq> CHR '']''"
proof (cases xs)
  case (Cons x xs')
  then show ?thesis using JSON_stringify_Cons [of x] by (cases xs') auto
qed simp

lemma number_end_simps [simp]:
  "number_end []" "number_end (CHR '','' # r)" "number_end (CHR '']'' # r)" "number_end (CHR ''}'' # r)"
  by (simp_all add: number_end_def)

lemma parse_value_roundtrip:
    "wf_json v \<longrightarrow> (\<forall>rest. number_end rest \<longrightarrow> parse_value (JSON_stringify v @ rest) = Some (v, rest))"
  and parse_elems_roundtrip:
    "wf_elems xs \<longrightarrow> xs \<noteq> [] \<longrightarrow>
       (\<forall>rest. parse_elems (stringify_elems xs @ CHR '']'' # rest) = Some (xs, rest))"
  and parse_members_roundtrip:
    "wf_members ms \<longrightarrow> ms \<noteq> [] \<longrightarrow>
       (\<forall>rest. parse_members (stringify_members ms @ CHR ''}'' # rest) = Some (ms, rest))"
proof (induction v and xs and ms rule: JSON_stringify_stringify_elems_stringify_members.induct)
  case 1
  show ?case using parse_value_literal(1) by simp
next
  case (2 b)
  show ?case using parse_value_literal(2,3) by simp
next
  case (3 i)
  show ?case by (simp add: parse_value_number)
next
  case (4 s)
  show ?case by (simp add: parse_value_string)
next
  case (5 xs)
  show ?case
  proof (intro impI allI)
    fix rest
    assume wf: "wf_json (JArr xs)" and "number_end rest"
    show "parse_value (JSON_stringify (JArr xs) @ rest) = Some (JArr xs, rest)"
    proof (cases "xs = []")
      case True
      then show ?thesis
        by (subst parse_value.simps) (simp add: is_ws_def)
    next
      case False
      then obtain c r where cr: "stringify_elems xs = c # r" "\<not> is_ws c" "c \<noteq> CHR '']''"
        using stringify_elems_Cons by blast
      have "parse_elems (c # r @ CHR '']'' # rest) = Some (xs, rest)"
        using 5 wf False cr(1) by (metis append_Cons wf_json.simps(1))
      then show ?thesis
        using cr by (subst parse_value.simps) (simp add: is_ws_def)
    qed
  qed
next
  case (6 ms)
  show ?case
  proof (intro impI allI)
    fix rest
    assume wf: "wf_json (JObj ms)" and "number_end rest"
    show "parse_value (JSON_stringify (JObj ms) @ rest) = Some (JObj ms, rest)"
    proof (cases "ms = []")
      case True
      then show ?thesis
        by (subst parse_value.simps) (simp add: is_ws_def object_of_def)
    next
      case False
      then obtain r where cr: "stringify_members ms = DQ # r"
        using stringify_members_Cons by blast
      have "parse_members (DQ # r @ CHR ''}'' # rest) = Some (ms, rest)"
        using 6 wf False cr by (metis append_Cons wf_json.simps(2))
      moreover have "object_of ms = ms"
        using wf by (simp add: object_of_distinct)
      ultimately show ?thesis
        using cr by (subst parse_value.simps) (simp add: is_ws_def)
    qed
  qed
next
  case 7
  show ?case by simp
next
  case (8 x)
  show ?case
  proof (intro impI allI)
    fix rest
    assume "wf_elems [x]"
    then have "parse_value (JSON_stringify x @ CHR '']'' # rest) = Some (x, CHR '']'' # rest)"
      using 8 by simp
    then show "parse_elems (stringify_elems [x] @ CHR '']'' # rest) = Some ([x], rest)"
      by (subst parse_elems.simps) (simp add: is_ws_def)
  qed
next
  case (9 x y ys)
  show ?case
  proof (intro impI allI)
    fix rest
    let ?t = "stringify_elems (y # ys) @ CHR '']'' # rest"
    assume wf: "wf_elems (x # y # ys)"
    then have "parse_value (JSON_stringify x @ CHR '','' # ?t) = Some (x, CHR '','' # ?t)"
      using 9(1) by simp
    moreover have "parse_elems ?t = Some (y # ys, rest)"
      using 9(2) wf by simp
    ultimately show "parse_elems (stringify_elems (x # y # ys) @ CHR '']'' # rest) = Some (x # y # ys, rest)"
      by (subst parse_elems.simps) (simp add: is_ws_def)
  qed
next
  case 10
  show ?case by simp
next
  case (11 m)
  show ?case
  proof (intro impI allI)
    fix rest
    assume "wf_members [m]"
    then have "parse_value (JSON_stringify (snd m) @ CHR ''}'' # rest) = Some (snd m, CHR ''}'' # rest)"
      using 11 by simp
    then show "parse_members (stringify_members [m] @ CHR ''}'' # rest) = Some ([m], rest)"
      by (subst parse_members.simps) (simp add: is_ws_def quote_def parse_chars_body)
  qed
next
  case (12 m n ms)
  show ?case
  proof (intro impI allI)
    fix rest
    let ?t = "stringify_members (n # ms) @ CHR ''}'' # rest"
    assume wf: "wf_members (m # n # ms)"
    then have "parse_value (JSON_stringify (snd m) @ CHR '','' # ?t) = Some (snd m, CHR '','' # ?t)"
      using 12(1) by simp
    moreover have "parse_members ?t = Some (n # ms, rest)"
      using 12(2) wf by simp
    ultimately show "parse_members (stringify_members (m # n # ms) @ CHR ''}'' # rest) = Some (m # n # ms, rest)"
      by (subst parse_members.simps) (simp add: is_ws_def quote_def parse_chars_body)
  qed
qed

lemma JSON_parse_stringify: "wf_json v \<Longrightarrow> JSON_parse (JSON_stringify v) = Some v"
  using parse_value_roundtrip [of v] number_end_simps(1) by (fastforce simp: JSON_parse_def)

subsection \<open>Sorted keys\<close>

lemma wf_members_iff: "wf_members ms \<longleftrightarrow> (\<forall>m \<in> set ms. wf_json (snd m))"
  by (induction ms) auto

lemma wf_elems_iff: "wf_elems xs \<longleftrightarrow> (\<forall>x \<in> set xs. wf_json x)"
  by (induction xs) auto

lemma keys_sorted_members_iff: "keys_sorted_members ms \<longleftrightarrow> (\<forall>m \<in> set ms. keys_sorted (snd m))"
  by (induction ms) auto

lemma sort_members_keys [simp]: "map fst (sort_members ms) = map fst ms"
  by (induction ms) auto

lemma distinct_keys_sort_key:
  "distinct (map fst (sort_key fst ms)) = distinct (map fst ms)"
proof -
  have "mset (map fst (sort_key fst ms)) = mset (map fst ms)"
    by (metis mset_map mset_sort)
  then show ?thesis by (rule mset_eq_imp_distinct_iff)
qed

lemma sortKeysRecursive_wf: "wf_json v \<Longrightarrow> wf_json (sortKeysRecursive v)"
  and sort_elems_wf: "wf_elems xs \<Longrightarrow> wf_elems (sort_elems xs)"
  and sort_members_wf: "wf_members ms \<Longrightarrow> wf_members (sort_members ms)"
proof (induction v and xs and ms rule: sortKeysRecursive_sort_elems_sort_members.induct)
  case (2 ms)
  then show ?case
    by (simp add: distinct_keys_sort_key wf_members_iff)
qed simp_all

lemma sortKeysRecursive_sorted: "keys_sorted (sortKeysRecursive v)"
  and sort_elems_sorted: "keys_sorted_elems (sort_elems xs)"
  and sort_members_sorted: "keys_sorted_members (sort_members ms)"
proof (induction v and xs and ms rule: sortKeysRecursive_sort_elems_sort_members.induct)
  case (2 ms)
  then show ?case
    by (simp add: keys_sorted_members_iff)
qed simp_all

lemma sort_key_sorted_id: "sorted (map fst ms) \<Longrightarrow> sort_key fst ms = ms"
  by (rule sort_key_id_if_sorted)

lemma keys_sorted_fixed: "keys_sorted v \<Longrightarrow> sortKeysRecursive v = v"
  and keys_sorted_elems_fixed: "keys_sorted_elems xs \<Longrightarrow> sort_elems xs = xs"
  and keys_sorted_members_fixed: "keys_sorted_members ms \<Longrightarrow> sort_members ms = ms"
proof (induction v and xs and ms rule: sortKeysRecursive_sort_elems_sort_members.induct)
  case (2 ms)
  then show ?case by (simp add: sort_key_sorted_id)
qed simp_all

lemma sortKeysRecursive_idem: "sortKeysRecursive (sortKeysRecursive v) = sortKeysRecursive v"
  by (simp add: keys_sorted_fixed sortKeysRecursive_sorted)

lemma stringify_sorted: "stringify (sortKeysRecursive v) = JSON_stringify (sortKeysRecursive v)"
  by (simp add: stringify_def sortKeysRecursive_idem)

lemma JSON_parse_encode:
  "wf_json v \<Longrightarrow> JSON_parse (stringify (sortKeysRecursive v)) = Some (sortKeysRecursive v)"
  by (simp add: stringify_sorted JSON_parse_stringify sortKeysRecursive_wf)

subsection \<open>The parser consumes its input\<close>

lemma strip_prefix_length: "strip_prefix p cs = Some t \<Longrightarrow> length t \<le> length cs"
  by (auto simp: strip_prefix_def split: if_splits)

lemma dropWhile_shorter: "takeWhile P xs \<noteq> [] \<Longrightarrow> length (dropWhile P xs) < length xs"
  using arg_cong [OF takeWhile_dropWhile_id [of P xs], of length]
  by (cases "takeWhile P xs") (simp_all del: takeWhile_dropWhile_id)

lemma parse_number_length: "parse_number cs = Some (i, t) \<Longrightarrow> length t < length cs"
proof -
  assume a: "parse_number cs = Some (i, t)"
  define body where "body = (if cs \<noteq> [] \<and> hd cs = CHR ''-'' then tl cs else cs)"
  from a have "takeWhile is_digit body \<noteq> []" and "t = dropWhile is_digit body"
    by (auto simp: parse_number_def Let_def body_def split: if_splits)
  then have "length t < length body" by (simp add: dropWhile_shorter)
  moreover have "length body \<le> length cs" by (simp add: body_def)
  ultimately show ?thesis by simp
qed

lemma parse_value_shorter: "parse_value cs = Some (v, t) \<Longrightarrow> length t < length cs"
  and parse_elems_shorter: "parse_elems cs = Some (xs, t) \<Longrightarrow> length t < length cs"
  and parse_members_shorter: "parse_members cs = Some (ms, t) \<Longrightarrow> length t < length cs"
proof (induction cs and cs and cs arbitrary: v t and xs t and ms t
    rule: parse_value_parse_elems_parse_members.induct)
  case (1 cs)
  from "1.prems" obtain c r where cr: "skip_ws cs = c # r"
    by (subst (asm) parse_value.simps) (auto split: list.splits)
  then have lr: "length r < length cs" by (rule skip_ws_Cons_length)
  show ?case
  proof (cases "c = CHR ''{'' \<or> c = CHR ''[''")
    case True
    from "1.prems" cr True obtain d r' where dr: "skip_ws r = d # r'"
      by (subst (asm) parse_value.simps) (auto split: list.splits)
    then have lr': "length r' < length r" by (rule skip_ws_Cons_length)
    show ?thesis
    proof (cases "c = CHR ''{''")
      case True
      show ?thesis
      proof (cases "d = CHR ''}''")
        case True
        with "1.prems" cr dr \<open>c = CHR ''{''\<close> have "t = r'"
          by (subst (asm) parse_value.simps) simp
        with lr lr' show ?thesis by simp
      next
        case False
        with "1.prems" cr dr \<open>c = CHR ''{''\<close> obtain ms where "parse_members (d # r') = Some (ms, t)"
          by (subst (asm) parse_value.simps) (auto split: option.splits)
        then have "length t < length (d # r')"
          using "1.IH"(1) cr dr \<open>c = CHR ''{''\<close> False by blast
        with lr lr' show ?thesis by simp
      qed
    next
      case False
      with True have c: "c = CHR ''[''" by simp
      show ?thesis
      proof (cases "d = CHR '']''")
        case True
        with "1.prems" cr dr c have "t = r'"
          by (subst (asm) parse_value.simps) simp
        with lr lr' show ?thesis by simp
      next
        case False
        with "1.prems" cr dr c obtain xs where "parse_elems (d # r') = Some (xs, t)"
          by (subst (asm) parse_value.simps) (auto split: option.splits)
        then have "length t < length (d # r')"
          using "1.IH"(2) cr dr c False by blast
        with lr lr' show ?thesis by simp
      qed
    qed
  next
    case False
    with "1.prems" cr have "length t \<le> length r"
      by (subst (asm) parse_value.simps)
        (auto split: if_splits option.splits
          dest!: parse_chars_length strip_prefix_length parse_number_length)
    then show ?thesis using lr by simp
  qed
next
  case (2 cs)
  from "2.prems" obtain x r where xr: "parse_value cs = Some (x, r)"
    by (subst (asm) parse_elems.simps) (auto split: option.splits)
  then have lr: "length r < length cs" by (rule "2.IH"(1))
  from "2.prems" xr obtain c u where cu: "skip_ws r = c # u"
    by (subst (asm) parse_elems.simps) (auto split: list.splits)
  then have lu: "length u < length r" by (rule skip_ws_Cons_length)
  show ?case
  proof (cases "c = CHR '']''")
    case True
    with "2.prems" xr cu have "t = u"
      by (subst (asm) parse_elems.simps) simp
    with lr lu show ?thesis by simp
  next
    case False
    with "2.prems" xr cu obtain ys where c: "c = CHR '',''" and g: "length u < length cs"
      and "parse_elems u = Some (ys, t)"
      by (subst (asm) parse_elems.simps) (auto split: if_splits option.splits)
    then have "length t < length u"
      using "2.IH"(2) xr cu False by blast
    with g show ?thesis by simp
  qed
next
  case (3 cs)
  from "3.prems" obtain c r where cr: "skip_ws cs = c # r"
    by (subst (asm) parse_members.simps) (auto split: list.splits)
  from "3.prems" cr have c: "c = DQ"
    by (subst (asm) parse_members.simps) (auto split: if_splits)
  from "3.prems" cr c obtain k r1 where k: "parse_chars r = Some (k, r1)"
    by (subst (asm) parse_members.simps) (auto split: option.splits)
  from "3.prems" cr c k obtain c1 r2 where c1: "skip_ws r1 = c1 # r2"
    by (subst (asm) parse_members.simps) (auto split: list.splits)
  from "3.prems" cr c k c1 have colon: "c1 = CHR '':''"
    by (subst (asm) parse_members.simps) (auto split: if_splits)
  from "3.prems" cr c k c1 colon obtain v r3 where v: "parse_value r2 = Some (v, r3)"
    by (subst (asm) parse_members.simps) (auto split: option.splits)
  from "3.prems" cr c k c1 colon v obtain c3 r4 where c3: "skip_ws r3 = c3 # r4"
    by (subst (asm) parse_members.simps) (auto split: list.splits)
  have l3: "length r3 < length r2"
    using "3.IH"(1) cr c k c1 colon v by blast
  have l2: "length r2 < length cs"
    using skip_ws_Cons_length [OF cr] parse_chars_length [OF k] skip_ws_Cons_length [OF c1] by simp
  have l4: "length r4 < length r3" using c3 by (rule skip_ws_Cons_length)
  show ?case
  proof (cases "c3 = CHR ''}''")
    case True
    with "3.prems" cr c k c1 colon v c3 have "t = r4"
      by (subst (asm) parse_members.simps) simp
    with l2 l3 l4 show ?thesis by simp
  next
    case False
    with "3.prems" cr c k c1 colon v c3 obtain ns where comma: "c3 = CHR '',''"
      and g: "length r4 < length cs" and "parse_members r4 = Some (ns, t)"
      by (subst (asm) parse_members.simps) (auto split: if_splits option.splits)
    then have "length t < length r4"
      using "3.IH"(2) cr c k c1 colon v c3 False by blast
    with g show ?thesis by simp
  qed
qed

subsection \<open>The parser builds objects with distinct keys\<close>

lemma parse_elems_unfold:
  "parse_elems cs =
     (case parse_value cs of
        None \<Rightarrow> None
      | Some (x, r) \<Rightarrow>
          (case skip_ws r of
             [] \<Rightarrow> None
           | c # t \<Rightarrow>
               if c = CHR '']'' then Some ([x], t)
               else if c = CHR '','' then
                 (case parse_elems t of None \<Rightarrow> None | Some (xs, u) \<Rightarrow> Some (x # xs, u))
               else None))"
  by (subst parse_elems.simps)
    (auto split: option.splits list.splits dest!: parse_value_shorter skip_ws_Cons_length)

lemma parse_members_unfold:
  "parse_members cs =
     (case skip_ws cs of
        [] \<Rightarrow> None
      | c # r \<Rightarrow>
          if c = DQ then
            (case parse_chars r of
               None \<Rightarrow> None
             | Some (k, r1) \<Rightarrow>
                 (case skip_ws r1 of
                    [] \<Rightarrow> None
                  | c1 # r2 \<Rightarrow>
                      if c1 = CHR '':'' then
                        (case parse_value r2 of
                           None \<Rightarrow> None
                         | Some (v, r3) \<Rightarrow>
                             (case skip_ws r3 of
                                [] \<Rightarrow> None
                              | c3 # r4 \<Rightarrow>
                                  if c3 = CHR ''}'' then Some ([(k, v)], r4)
                                  else if c3 = CHR '','' then
                                    (case parse_members r4 of
                                       None \<Rightarrow> None
                                     | Some (ms, u) \<Rightarrow> Some ((k, v) # ms, u))
                                  else None))
                      else None))
          else None)"
  by (subst parse_members.simps)
    (auto split: option.splits list.splits
      dest!: parse_value_shorter skip_ws_Cons_length parse_chars_length)

lemma set_update_subset: "set (AList.update k v al) \<subseteq> insert (k, v) (set al)"
  by (induction al) auto

lemma foldl_update_wf:
  "distinct (map fst acc) \<Longrightarrow> wf_members acc \<Longrightarrow> wf_members ms \<Longrightarrow>
     distinct (map fst (foldl (\<lambda>obj m. AList.update (fst m) (snd m) obj) acc ms))
     \<and> wf_members (foldl (\<lambda>obj m. AList.update (fst m) (snd m) obj) acc ms)"
proof (induction ms arbitrary: acc)
  case Nil
  then show ?case by simp
next
  case (Cons m ms)
  have "distinct (map fst (AList.update (fst m) (snd m) acc))"
    using Cons.prems(1) by (simp add: distinct_update)
  moreover have "wf_members (AList.update (fst m) (snd m) acc)"
    using Cons.prems(2,3) set_update_subset [of "fst m" "snd m" acc]
    by (auto simp: wf_members_iff)
  ultimately show ?case
    using Cons.IH [of "AList.update (fst m) (snd m) acc"] Cons.prems(3) by simp
qed

lemma object_of_wf: "wf_members ms \<Longrightarrow> wf_json (JObj (object_of ms))"
  using foldl_update_wf [of "[]" ms] by (simp add: object_of_def)

lemma wf_json_empty_object: "wf_json (JObj [])"
  by simp

lemma parse_value_wf: "parse_value cs = Some (v, t) \<Longrightarrow> wf_json v"
  and parse_elems_wf: "parse_elems cs = Some (xs, t) \<Longrightarrow> wf_elems xs"
  and parse_members_wf: "parse_members cs = Some (ms, t) \<Longrightarrow> wf_members ms"
proof (induction cs and cs and cs arbitrary: v t and xs t and ms t
    rule: parse_value_parse_elems_parse_members.induct)
  case (1 cs)
  from "1.prems" show ?case
    by (subst (asm) parse_value.simps)
      (auto split: list.splits if_splits option.splits
        simp del: wf_json.simps(2) intro!: object_of_wf wf_json_empty_object dest: "1.IH")
next
  case (2 cs)
  from "2.prems" "2.IH" show ?case
    by (subst (asm) parse_elems.simps)
      (auto split: list.splits if_splits option.splits; blast)
next
  case (3 cs)
  from "3.prems" "3.IH" show ?case
    by (subst (asm) parse_members.simps)
      (auto split: list.splits if_splits option.splits; blast)
qed

lemma JSON_parse_wf: "JSON_parse s = Some v \<Longrightarrow> wf_json v"
  by (auto simp: JSON_parse_def split: option.splits if_splits dest: parse_value_wf)

section \<open>The handlers when the host rejects no call\<close>

lemma next_fault_none: "faults s = [] \<Longrightarrow> next_fault s = (False, s)"
  by (simp add: next_fault_def)

lemma getState_ok: "faults s = [] \<Longrightarrow> getState s k = (Inr (map_of (states s) k), s)"
  by (simp add: getState_def next_fault_none)

lemma putState_ok:
  "faults s = [] \<Longrightarrow> putState s k b = (Inr (), s\<lparr>states := AList.update k b (states s)\<rparr>)"
  by (simp add: putState_def next_fault_none)

lemma deleteState_ok:
  "faults s = [] \<Longrightarrow> deleteState s k = (Inr (), s\<lparr>states := AList.delete k (states s)\<rparr>)"
  by (simp add: deleteState_def next_fault_none)

lemma getStateByRange_ok: "faults s = [] \<Longrightarrow> getStateByRange s = (Inr (states s), s)"
  by (simp add: getStateByRange_def next_fault_none)

lemma AssetExists_ok: "faults s = [] \<Longrightarrow> AssetExists s k = (Inr (exists_answer s k), s)"
  by (simp add: AssetExists_def getState_ok exists_answer_def split: option.splits)

lemma truthy_exists_answer [simp]: "truthy (exists_answer s k) = present s k"
  by (simp add: truthy_def exists_answer_def present_def split: option.splits)

lemma ReadAsset_ok:
  "faults s = [] \<Longrightarrow>
     ReadAsset s k = (if present s k then Inr (the (map_of (states s) k)) else Inl (NotFound k), s)"
  by (simp add: ReadAsset_def getState_ok present_def split: option.splits)

lemma CreateAsset_ok:
  "faults s = [] \<Longrightarrow>
     CreateAsset s k gn own ot gv =
       (if present s k then (Inl (AlreadyExists k), s)
        else (Inr (JSON_stringify (new_asset k gn own ot gv)),
              s\<lparr>states := AList.update k (stringify (sortKeysRecursive (new_asset k gn own ot gv))) (states s)\<rparr>))"
  by (simp add: CreateAsset_def AssetExists_ok putState_ok Let_def)

lemma UpdateAsset_ok:
  "faults s = [] \<Longrightarrow>
     UpdateAsset s k gn own ot gv =
       (if present s k
        then (Inr (), s\<lparr>states := AList.update k (stringify (sortKeysRecursive (new_asset k gn own ot gv))) (states s)\<rparr>)
        else (Inl (NotFound k), s))"
  by (simp add: UpdateAsset_def AssetExists_ok putState_ok Let_def)

lemma DeleteAsset_ok:
  "faults s = [] \<Longrightarrow>
     DeleteAsset s k =
       (if present s k then (Inr (), s\<lparr>states := AList.delete k (states s)\<rparr>)
        else (Inl (NotFound k), s))"
  by (simp add: DeleteAsset_def AssetExists_ok deleteState_ok)

lemma JSON_stringify_nonempty: "JSON_stringify v \<noteq> []"
  using JSON_stringify_Cons [of v] by auto

lemma stringify_nonempty: "stringify v \<noteq> []"
  by (simp add: stringify_def JSON_stringify_nonempty)

lemma present_update:
  "present (s\<lparr>states := AList.update k b (states s)\<rparr>) k' =
     (if k' = k then b \<noteq> [] else present s k')"
  by (simp add: present_def update_conv')

lemma present_delete:
  "present (s\<lparr>states := AList.delete k (states s)\<rparr>) k' = (k' \<noteq> k \<and> present s k')"
  by (simp add: present_def delete_conv')

section \<open>A store with one asset\<close>

lemma chess_sorted:
  "sortKeysRecursive chess_asset =
     JObj [(''game_name'', JStr ''Chess''), (''game_value'', JNum 100), (''id'', JStr ''asset1''),
           (''owner_name'', JStr ''Robert''), (''owner_type'', JStr ''player'')]"
  by (simp add: chess_asset_def new_asset_def)

lemma chess_bytes:
  \<open>stringify (sortKeysRecursive chess_asset) =
     ''{"game_name":"Chess","game_value":100,"id":"asset1","owner_name":"Robert","owner_type":"player"}''\<close>
  by code_simp

lemma chess_reply:
  \<open>JSON_stringify chess_asset =
     ''{"id":"asset1","game_name":"Chess","owner_name":"Robert","owner_type":"player","game_value":100}''\<close>
  by code_simp

lemma chess_create:
  "CreateAsset empty_stub ''asset1'' (JStr ''Chess'') (JStr ''Robert'') (JStr ''player'') (JNum 100)
     = (Inr (JSON_stringify chess_asset), chess_stub)"
  by (simp add: CreateAsset_ok empty_stub_def present_def chess_stub_def chess_asset_def)

lemma chess_stub_faults: "faults chess_stub = []"
  by (simp add: chess_stub_def)

lemma chess_stub_present: "present chess_stub ''asset1''" "\<not> present chess_stub ''asset2''"
  by (simp_all add: chess_stub_def present_def stringify_nonempty)

section \<open>Existence\<close>

lemma exists_answer_update:
  "exists_answer (s\<lparr>states := AList.update k b (states s)\<rparr>) k = Boolean (b \<noteq> [])"
  by (simp add: exists_answer_def update_conv')

lemma exists_answer_delete:
  "exists_answer (s\<lparr>states := AList.delete k (states s)\<rparr>) k = Undefined"
  by (simp add: exists_answer_def delete_conv')

text \<open>
  Claim C7, as amended. \<^verbatim>\<open>AssetExists(id)\<close> leaves the store as it was and does not fail
  on a missing key. Its result is truthy, and then the boolean \<^verbatim>\<open>true\<close>, if and only if a
  non-empty value is stored under \<^verbatim>\<open>id\<close>. On a stored value the result is a boolean; on
  a missing key it is the \<^verbatim>\<open>undefined\<close> that the stub gave, which is falsy but is not the
  boolean \<^verbatim>\<open>false\<close>. After a successful \<^verbatim>\<open>CreateAsset(id, ...)\<close> the result is \<^verbatim>\<open>true\<close>;
  after a successful \<^verbatim>\<open>DeleteAsset(id)\<close> it is \<^verbatim>\<open>undefined\<close>. (The host rejects no call:
  \<open>faults s = []\<close>.)
\<close>

theorem AssetExists_truthy_iff_present:
  assumes "faults s = []"
  shows "AssetExists s id' = (Inr (exists_answer s id'), s)
    \<and> (truthy (exists_answer s id') \<longleftrightarrow> present s id')
    \<and> (exists_answer s id' = Boolean True \<longleftrightarrow> present s id')
    \<and> (map_of (states s) id' = None \<longrightarrow> AssetExists s id' = (Inr Undefined, s))
    \<and> (\<forall>bytes. map_of (states s) id' = Some bytes \<longrightarrow>
          AssetExists s id' = (Inr (Boolean (bytes \<noteq> [])), s))
    \<and> (\<not> present s id' \<longrightarrow>
          (\<exists>r s1. CreateAsset s id' gn own ot gv = (Inr r, s1)
             \<and> AssetExists s1 id' = (Inr (Boolean True), s1)))
    \<and> (present s id' \<longrightarrow>
          (\<exists>s2. DeleteAsset s id' = (Inr (), s2) \<and> AssetExists s2 id' = (Inr Undefined, s2)))"
proof (intro conjI impI allI)
  show "AssetExists s id' = (Inr (exists_answer s id'), s)"
    using assms by (rule AssetExists_ok)
  show "truthy (exists_answer s id') \<longleftrightarrow> present s id'"
    by simp
  show "exists_answer s id' = Boolean True \<longleftrightarrow> present s id'"
    using truthy_exists_answer [of s id'] by (simp only: truthy_def)
  show "AssetExists s id' = (Inr Undefined, s)" if "map_of (states s) id' = None"
    using assms that by (simp add: AssetExists_ok exists_answer_def)
  show "AssetExists s id' = (Inr (Boolean (bytes \<noteq> [])), s)" if "map_of (states s) id' = Some bytes"
    for bytes
    using assms that by (simp add: AssetExists_ok exists_answer_def)
  show "\<exists>r s1. CreateAsset s id' gn own ot gv = (Inr r, s1) \<and> AssetExists s1 id' = (Inr (Boolean True), s1)"
    if "\<not> present s id'"
    using assms that by (simp add: CreateAsset_ok AssetExists_ok exists_answer_update stringify_nonempty)
  show "\<exists>s2. DeleteAsset s id' = (Inr (), s2) \<and> AssetExists s2 id' = (Inr Undefined, s2)"
    if "present s id'"
    using assms that by (simp add: DeleteAsset_ok AssetExists_ok exists_answer_delete)
qed

theorem AssetExists_truthy_iff_present_witness:
  "AssetExists empty_stub ''asset1'' = (Inr Undefined, empty_stub)
   \<and> (\<exists>r s1. CreateAsset empty_stub ''asset1'' (JStr ''Chess'') (JStr ''Robert'') (JStr ''player'') (JNum 100) = (Inr r, s1)
        \<and> AssetExists s1 ''asset1'' = (Inr (Boolean True), s1))
   \<and> AssetExists chess_stub ''asset1'' = (Inr (Boolean True), chess_stub)
   \<and> (\<exists>s2. DeleteAsset chess_stub ''asset1'' = (Inr (), s2) \<and> AssetExists s2 ''asset1'' = (Inr Undefined, s2))
   \<and> AssetExists \<lparr>states = [(''asset1'', [])], faults = []\<rparr> ''asset1''
        = (Inr (Boolean False), \<lparr>states = [(''asset1'', [])], faults = []\<rparr>)"
proof -
  let ?e = "\<lparr>states = [(''asset1'', [])], faults = []\<rparr>"
  have f0: "faults empty_stub = []" and m0: "map_of (states empty_stub) ''asset1'' = None"
    and p0: "\<not> present empty_stub ''asset1''"
    by (simp_all add: empty_stub_def present_def)
  have fe: "faults ?e = []" and me: "map_of (states ?e) ''asset1'' = Some []"
    by simp_all
  have a: "AssetExists empty_stub ''asset1'' = (Inr Undefined, empty_stub)"
    using AssetExists_truthy_iff_present [OF f0, of "''asset1''"] m0 by (simp add: exists_answer_def)
  have b: "\<exists>r s1. CreateAsset empty_stub ''asset1'' (JStr ''Chess'') (JStr ''Robert'') (JStr ''player'') (JNum 100) = (Inr r, s1)
        \<and> AssetExists s1 ''asset1'' = (Inr (Boolean True), s1)"
    using AssetExists_truthy_iff_present [OF f0, of "''asset1''" "JStr ''Chess''" "JStr ''Robert''" "JStr ''player''" "JNum 100"] p0
    by simp
  have c: "AssetExists chess_stub ''asset1'' = (Inr (Boolean True), chess_stub)"
    using AssetExists_truthy_iff_present [OF chess_stub_faults, of "''asset1''"] chess_stub_present(1)
    by simp
  have d: "\<exists>s2. DeleteAsset chess_stub ''asset1'' = (Inr (), s2) \<and> AssetExists s2 ''asset1'' = (Inr Undefined, s2)"
    using AssetExists_truthy_iff_present [OF chess_stub_faults, of "''asset1''"] chess_stub_present(1)
    by simp
  have e: "AssetExists ?e ''asset1'' = (Inr (Boolean False), ?e)"
    using AssetExists_truthy_iff_present [OF fe, of "''asset1''"] me by (simp add: exists_answer_def)
  from a b c d e show ?thesis by simp
qed

text \<open>
  On the empty store \<^verbatim>\<open>AssetExists\<close> returns \<^verbatim>\<open>undefined\<close>, which is not the boolean
  \<^verbatim>\<open>false\<close>.
\<close>

theorem AssetExists_missing_key_undefined:
  "AssetExists empty_stub ''asset1'' = (Inr Undefined, empty_stub)
   \<and> fst (AssetExists empty_stub ''asset1'') \<noteq> Inr (Boolean False)"
  by (simp add: AssetExists_ok empty_stub_def exists_answer_def)

lemma TransferAsset_ok:
  "faults s = [] \<Longrightarrow>
     TransferAsset s k newOwner =
       (if \<not> present s k then (Inl (NotFound k), s)
        else case JSON_parse (the (map_of (states s) k)) of
               None \<Rightarrow> (Inl SyntaxError, s)
             | Some asset \<Rightarrow>
                 (case get_prop asset ''owner_name'' of
                    Inl e \<Rightarrow> (Inl e, s)
                  | Inr old \<Rightarrow>
                      (case set_prop asset ''owner_name'' newOwner of
                         Inl e \<Rightarrow> (Inl e, s)
                       | Inr asset' \<Rightarrow>
                           (Inr (transfer_reply old),
                            s\<lparr>states := AList.update k (stringify (sortKeysRecursive asset')) (states s)\<rparr>))))"
  by (simp add: TransferAsset_def ReadAsset_ok putState_ok transfer_reply_def
      split: option.splits sum.splits)




section \<open>InitLedger\<close>

lemma write_all_Nil [simp]: "write_all [] st = st"
  by (simp add: write_all_def)

lemma write_all_Cons [simp]: "write_all (w # ws) st = write_all ws (AList.update (fst w) (snd w) st)"
  by (simp add: write_all_def)

lemma InitLedger_loop_step:
  "asset_write asset = Some (key, bytes) \<Longrightarrow>
     InitLedger_loop s (asset # assets) =
       (case putState s key bytes of
          (Inl e, s') \<Rightarrow> (Inl e, s')
        | (Inr u, s') \<Rightarrow> InitLedger_loop s' assets)"
  by (auto simp: asset_write_def Let_def split: option.splits json.splits)

lemma putState_accepted:
  "faults s = False # fs \<Longrightarrow>
     putState s key bytes = (Inr (), s\<lparr>states := AList.update key bytes (states s), faults := fs\<rparr>)"
  by (simp add: putState_def next_fault_def)

lemma putState_rejected:
  "faults s = True # fs \<Longrightarrow> putState s key bytes = (Inl StoreError, s\<lparr>faults := fs\<rparr>)"
  by (simp add: putState_def next_fault_def)

lemma InitLedger_loop_ok:
  "faults s = [] \<Longrightarrow> map asset_write assets = map Some writes \<Longrightarrow>
     InitLedger_loop s assets = (Inr (), s\<lparr>states := write_all writes (states s)\<rparr>)"
proof (induction assets arbitrary: s writes)
  case Nil
  then show ?case by simp
next
  case (Cons asset assets)
  from Cons.prems(2) obtain w ws where w: "writes = w # ws" "asset_write asset = Some w"
    "map asset_write assets = map Some ws"
    by (cases writes) auto
  let ?s' = "s\<lparr>states := AList.update (fst w) (snd w) (states s)\<rparr>"
  have "InitLedger_loop s (asset # assets) = InitLedger_loop ?s' assets"
    using InitLedger_loop_step [of asset "fst w" "snd w" s assets] w(2) Cons.prems(1)
    by (simp add: putState_ok)
  also have "\<dots> = (Inr (), ?s'\<lparr>states := write_all ws (states ?s')\<rparr>)"
    using Cons.IH [of ?s' ws] Cons.prems(1) w(3) by simp
  finally show ?case by (simp add: w(1))
qed

lemma InitLedger_loop_rejected:
  "faults s = replicate k False @ True # fs \<Longrightarrow> k < length assets \<Longrightarrow>
   map asset_write assets = map Some writes \<Longrightarrow>
     InitLedger_loop s assets =
       (Inl StoreError, s\<lparr>states := write_all (take k writes) (states s), faults := fs\<rparr>)"
proof (induction assets arbitrary: s writes k)
  case Nil
  then show ?case by simp
next
  case (Cons asset assets)
  from Cons.prems(3) obtain w ws where w: "writes = w # ws" "asset_write asset = Some w"
    "map asset_write assets = map Some ws"
    by (cases writes) auto
  show ?case
  proof (cases k)
    case 0
    with Cons.prems(1) have "faults s = True # fs" by simp
    then show ?thesis
      using InitLedger_loop_step [of asset "fst w" "snd w" s assets] w(2) 0
      by (simp add: putState_rejected)
  next
    case (Suc j)
    let ?s' = "s\<lparr>states := AList.update (fst w) (snd w) (states s), faults := replicate j False @ True # fs\<rparr>"
    from Suc Cons.prems(1) have f: "faults s = False # (replicate j False @ True # fs)" by simp
    have "InitLedger_loop s (asset # assets) = InitLedger_loop ?s' assets"
      using InitLedger_loop_step [of asset "fst w" "snd w" s assets] w(2)
      by (simp add: putState_accepted [OF f])
    also have "\<dots> = (Inl StoreError, ?s'\<lparr>states := write_all (take j ws) (states ?s'), faults := fs\<rparr>)"
      using Cons.IH [of ?s' j ws] Cons.prems(2) w(3) Suc by simp
    finally show ?thesis by (simp add: w(1) Suc)
  qed
qed

lemma seed_asset_writes: "map asset_write seed_assets = map Some seed_writes"
  by (simp add: seed_assets_def seed_writes_def asset_write_def)

lemma seed_keys:
  "map fst seed_writes = [''asset1'', ''asset2'', ''asset3'', ''asset4'', ''asset5'', ''asset6'']"
  by (simp add: seed_writes_def seed_assets_def)

lemma map_of_write_all_other:
  "k \<notin> fst ` set ws \<Longrightarrow> map_of (write_all ws st) k = map_of st k"
  by (induction ws arbitrary: st) (auto simp: update_conv')

lemma map_of_write_all:
  "distinct (map fst ws) \<Longrightarrow> (k, b) \<in> set ws \<Longrightarrow> map_of (write_all ws st) k = Some b"
proof (induction ws arbitrary: st)
  case Nil
  then show ?case by simp
next
  case (Cons w ws)
  show ?case
  proof (cases "(k, b) = w")
    case True
    then have "k \<notin> fst ` set ws" using Cons.prems(1) by force
    then have "map_of (write_all ws (AList.update k b st)) k = map_of (AList.update k b st) k"
      by (rule map_of_write_all_other)
    then show ?thesis
      using True by (auto simp: update_conv')
  next
    case False
    then have "(k, b) \<in> set ws" using Cons.prems(2) by auto
    then show ?thesis using Cons.IH Cons.prems(1) by simp
  qed
qed

lemma map_of_write_all_nth:
  assumes "distinct (map fst ws)" "j < length ws"
  shows "map_of (write_all ws st) (fst (ws ! j)) = Some (snd (ws ! j))"
  using map_of_write_all [OF assms(1), of "fst (ws ! j)" "snd (ws ! j)" st] assms(2)
  by simp

lemma seed_writes_text:
  \<open>seed_writes =
     [(''asset1'', ''{"docType":"asset","game_name":"game1","game_value":300,"id":"asset1","owner_name":"Tomoko","owner_type":"player"}''),
      (''asset2'', ''{"docType":"asset","game_name":"game2","game_value":400,"id":"asset2","owner_name":"Brad","owner_type":"player"}''),
      (''asset3'', ''{"docType":"asset","game_name":"game3","game_value":500,"id":"asset3","owner_name":"Jin Soo","owner_type":"player"}''),
      (''asset4'', ''{"docType":"asset","game_name":"game4","game_value":600,"id":"asset4","owner_name":"Max","owner_type":"player"}''),
      (''asset5'', ''{"docType":"asset","game_name":"game5","game_value":700,"id":"asset5","owner_name":"Adriana","owner_type":"player"}''),
      (''asset6'', ''{"docType":"asset","game_name":"game6","game_value":800,"id":"asset6","owner_name":"Michel","owner_type":"player"}'')]\<close>
  by code_simp

lemma seed_writes_tagged:
  "list_all (\<lambda>w. tagged_record (fst w) (snd w) \<and> canonical (snd w)) seed_writes"
  by code_simp

lemma seed_writes_distinct: "distinct (map fst seed_writes)"
  by (simp add: seed_keys)

lemma seed_writes_length: "length seed_writes = 6"
  using arg_cong [OF seed_keys, of length] by simp

text \<open>
  Claim C8. \<^verbatim>\<open>InitLedger\<close> writes the six seed records \<^verbatim>\<open>asset1\<close> ... \<^verbatim>\<open>asset6\<close>, each
  tagged with \<^verbatim>\<open>docType = "asset"\<close> and in canonical encoding, under its id. When the
  host accepts \<open>k\<close> writes and rejects the next, \<^verbatim>\<open>InitLedger\<close> fails with that error, the
  first \<open>k\<close> records are in the store and the later ones are not written: nothing is
  rolled back.
\<close>

theorem InitLedger_writes_seeds:
  "(faults s = [] \<longrightarrow>
      InitLedger s = (Inr (), s\<lparr>states := write_all seed_writes (states s)\<rparr>)
      \<and> (\<forall>j<6. map_of (write_all seed_writes (states s)) (fst (seed_writes ! j)) = Some (snd (seed_writes ! j))))
   \<and> (k < 6 \<and> faults s = replicate k False @ True # fs \<longrightarrow>
      InitLedger s = (Inl StoreError, s\<lparr>states := write_all (take k seed_writes) (states s), faults := fs\<rparr>)
      \<and> (\<forall>j<k. map_of (write_all (take k seed_writes) (states s)) (fst (seed_writes ! j))
                  = Some (snd (seed_writes ! j)))
      \<and> (\<forall>j. k \<le> j \<and> j < 6 \<longrightarrow>
             map_of (write_all (take k seed_writes) (states s)) (fst (seed_writes ! j))
               = map_of (states s) (fst (seed_writes ! j))))
   \<and> map fst seed_writes = [''asset1'', ''asset2'', ''asset3'', ''asset4'', ''asset5'', ''asset6'']
   \<and> list_all (\<lambda>w. tagged_record (fst w) (snd w) \<and> canonical (snd w)) seed_writes"
proof (intro conjI impI allI)
  assume f: "faults s = []"
  show "InitLedger s = (Inr (), s\<lparr>states := write_all seed_writes (states s)\<rparr>)"
    unfolding InitLedger_def using f seed_asset_writes by (rule InitLedger_loop_ok)
  fix j :: nat
  assume "j < 6"
  then show "map_of (write_all seed_writes (states s)) (fst (seed_writes ! j)) = Some (snd (seed_writes ! j))"
    by (simp add: map_of_write_all_nth seed_writes_distinct seed_writes_length)
next
  assume a: "k < 6 \<and> faults s = replicate k False @ True # fs"
  then have k: "k < length seed_assets" by (simp add: seed_assets_def)
  show "InitLedger s = (Inl StoreError, s\<lparr>states := write_all (take k seed_writes) (states s), faults := fs\<rparr>)"
    unfolding InitLedger_def using a k seed_asset_writes by (simp add: InitLedger_loop_rejected)
  have d: "distinct (map fst (take k seed_writes))"
    using seed_writes_distinct by (simp add: take_map [symmetric] distinct_take)
  show "map_of (write_all (take k seed_writes) (states s)) (fst (seed_writes ! j)) = Some (snd (seed_writes ! j))"
    if "j < k" for j
    using map_of_write_all_nth [OF d, of j "states s"] that a by (simp add: seed_writes_length)
  show "map_of (write_all (take k seed_writes) (states s)) (fst (seed_writes ! j))
          = map_of (states s) (fst (seed_writes ! j))"
    if "k \<le> j \<and> j < 6" for j
  proof (rule map_of_write_all_other)
    have "fst (seed_writes ! j) = map fst seed_writes ! j"
      using that by (simp add: seed_writes_length)
    moreover have "fst ` set (take k seed_writes) = set (take k (map fst seed_writes))"
      by (simp add: take_map)
    moreover have "map fst seed_writes ! j \<notin> set (take k (map fst seed_writes))"
      using seed_writes_distinct that
      by (metis (no_types, lifting) distinct_conv_nth in_set_conv_nth length_map length_take
          min.strict_boundedE nth_take seed_writes_length not_less order_less_imp_not_eq)
    ultimately show "fst (seed_writes ! j) \<notin> fst ` set (take k seed_writes)" by simp
  qed
next
  show "map fst seed_writes = [''asset1'', ''asset2'', ''asset3'', ''asset4'', ''asset5'', ''asset6'']"
    by (rule seed_keys)
  show "list_all (\<lambda>w. tagged_record (fst w) (snd w) \<and> canonical (snd w)) seed_writes"
    by (rule seed_writes_tagged)
qed

theorem InitLedger_writes_seeds_witness:
  \<open>InitLedger empty_stub = (Inr (), empty_stub\<lparr>states := write_all seed_writes []\<rparr>)
   \<and> map_of (write_all seed_writes []) ''asset1''
       = Some ''{"docType":"asset","game_name":"game1","game_value":300,"id":"asset1","owner_name":"Tomoko","owner_type":"player"}''
   \<and> InitLedger failing_stub
       = (Inl StoreError, failing_stub\<lparr>states := write_all (take 2 seed_writes) [], faults := []\<rparr>)
   \<and> map_of (write_all (take 2 seed_writes) []) ''asset2''
       = Some ''{"docType":"asset","game_name":"game2","game_value":400,"id":"asset2","owner_name":"Brad","owner_type":"player"}''
   \<and> map_of (write_all (take 2 seed_writes) []) ''asset3'' = None\<close>
proof -
  have f: "faults empty_stub = []" "states empty_stub = []"
    by (simp_all add: empty_stub_def)
  have g: "(2::nat) < 6 \<and> faults failing_stub = replicate 2 False @ True # []" "states failing_stub = []"
    by (simp_all add: failing_stub_def numeral_2_eq_2)
  have n: "seed_writes ! 0 = (''asset1'', snd (seed_writes ! 0))" "seed_writes ! 1 = (''asset2'', snd (seed_writes ! 1))"
    "fst (seed_writes ! 2) = ''asset3''"
    using seed_keys by (simp_all add: seed_writes_def seed_assets_def)
  note t = seed_writes_text
  have a: "snd (seed_writes ! 0) = snd (hd seed_writes)" "snd (seed_writes ! 1) = snd (hd (tl seed_writes))"
    by (simp_all add: seed_writes_def seed_assets_def)
  from InitLedger_writes_seeds [of empty_stub 0 "[]"] f
  have 1: "InitLedger empty_stub = (Inr (), empty_stub\<lparr>states := write_all seed_writes []\<rparr>)"
    and 2: "map_of (write_all seed_writes []) (fst (seed_writes ! 0)) = Some (snd (seed_writes ! 0))"
    by simp_all
  from InitLedger_writes_seeds [of failing_stub 2 "[]"] g
  have 3: "InitLedger failing_stub
       = (Inl StoreError, failing_stub\<lparr>states := write_all (take 2 seed_writes) [], faults := []\<rparr>)"
    and 4: "map_of (write_all (take 2 seed_writes) []) (fst (seed_writes ! 1)) = Some (snd (seed_writes ! 1))"
    and 5: "map_of (write_all (take 2 seed_writes) []) (fst (seed_writes ! 2)) = map_of [] (fst (seed_writes ! 2))"
    by simp_all
  show ?thesis
    using 1 2 3 4 5 n a by (simp add: t)
qed

section \<open>CreateAsset and UpdateAsset\<close>

lemma new_asset_sorted:
  "sortKeysRecursive (new_asset k gn own ot gv) =
     JObj [(''game_name'', sortKeysRecursive gn), (''game_value'', sortKeysRecursive gv), (''id'', JStr k),
           (''owner_name'', sortKeysRecursive own), (''owner_type'', sortKeysRecursive ot)]"
  by (simp add: new_asset_def)

lemma new_asset_wf:
  "wf_json gn \<Longrightarrow> wf_json own \<Longrightarrow> wf_json ot \<Longrightarrow> wf_json gv \<Longrightarrow> wf_json (new_asset k gn own ot gv)"
  by (simp add: new_asset_def)

lemma new_asset_stored:
  assumes "wf_json gn" "wf_json own" "wf_json ot" "wf_json gv"
  shows "JSON_parse (stringify (sortKeysRecursive (new_asset k gn own ot gv))) =
     Some (JObj [(''game_name'', sortKeysRecursive gn), (''game_value'', sortKeysRecursive gv), (''id'', JStr k),
                 (''owner_name'', sortKeysRecursive own), (''owner_type'', sortKeysRecursive ot)])"
  using JSON_parse_encode [OF new_asset_wf [OF assms], of k] by (simp only: new_asset_sorted)

lemma new_asset_reply:
  assumes "wf_json gn" "wf_json own" "wf_json ot" "wf_json gv"
  shows "JSON_parse (JSON_stringify (new_asset k gn own ot gv)) =
     Some (JObj [(''id'', JStr k), (''game_name'', gn), (''owner_name'', own), (''owner_type'', ot),
                 (''game_value'', gv)])"
  using JSON_parse_stringify [OF new_asset_wf [OF assms], of k] by (simp add: new_asset_def)

text \<open>
  Claim C2, as amended. \<^verbatim>\<open>CreateAsset\<close> throws "The asset id already exists" when a
  non-empty value is stored under \<^verbatim>\<open>id\<close>, and leaves the store as it was. Otherwise it
  writes under \<^verbatim>\<open>id\<close> the canonical encoding of a record with exactly the five fields
  \<^verbatim>\<open>game_name\<close>, \<^verbatim>\<open>game_value\<close>, \<^verbatim>\<open>id\<close>, \<^verbatim>\<open>owner_name\<close>, \<^verbatim>\<open>owner_type\<close> (no
  \<^verbatim>\<open>docType\<close>), and returns \<^verbatim>\<open>JSON.stringify(asset)\<close>: the record with its fields in the
  order they were set (\<^verbatim>\<open>id\<close>, \<^verbatim>\<open>game_name\<close>, \<^verbatim>\<open>owner_name\<close>, \<^verbatim>\<open>owner_type\<close>,
  \<^verbatim>\<open>game_value\<close>), which is not the canonical encoding. (The host rejects no call; the
  arguments are JavaScript values, whose objects have distinct keys.)
\<close>

theorem CreateAsset_creates:
  assumes "faults s = []" "wf_json gn" "wf_json own" "wf_json ot" "wf_json gv"
  shows "(present s id' \<longrightarrow> CreateAsset s id' gn own ot gv = (Inl (AlreadyExists id'), s))
    \<and> (\<not> present s id' \<longrightarrow>
         (\<exists>s' bytes.
            CreateAsset s id' gn own ot gv = (Inr (JSON_stringify (new_asset id' gn own ot gv)), s')
          \<and> states s' = AList.update id' bytes (states s) \<and> faults s' = []
          \<and> map_of (states s') id' = Some bytes
          \<and> bytes = stringify (sortKeysRecursive (new_asset id' gn own ot gv))
          \<and> JSON_parse bytes =
               Some (JObj [(''game_name'', sortKeysRecursive gn), (''game_value'', sortKeysRecursive gv),
                           (''id'', JStr id'), (''owner_name'', sortKeysRecursive own),
                           (''owner_type'', sortKeysRecursive ot)])
          \<and> fields_of bytes = [''game_name'', ''game_value'', ''id'', ''owner_name'', ''owner_type'']
          \<and> JSON_parse (JSON_stringify (new_asset id' gn own ot gv)) =
               Some (JObj [(''id'', JStr id'), (''game_name'', gn), (''owner_name'', own),
                           (''owner_type'', ot), (''game_value'', gv)])))"
  using assms
  by (simp add: CreateAsset_ok new_asset_stored new_asset_reply fields_of_def update_conv')

theorem CreateAsset_creates_witness:
  \<open>CreateAsset chess_stub ''asset1'' (JStr ''Chess'') (JStr ''Robert'') (JStr ''player'') (JNum 100)
     = (Inl (AlreadyExists ''asset1''), chess_stub)
   \<and> CreateAsset empty_stub ''asset1'' (JStr ''Chess'') (JStr ''Robert'') (JStr ''player'') (JNum 100)
     = (Inr ''{"id":"asset1","game_name":"Chess","owner_name":"Robert","owner_type":"player","game_value":100}'',
        chess_stub)
   \<and> map_of (states chess_stub) ''asset1''
     = Some ''{"game_name":"Chess","game_value":100,"id":"asset1","owner_name":"Robert","owner_type":"player"}''\<close>
proof -
  have w: "wf_json (JStr ''Chess'')" "wf_json (JStr ''Robert'')" "wf_json (JStr ''player'')" "wf_json (JNum 100)"
    by simp_all
  have e: "faults empty_stub = []" "\<not> present empty_stub ''asset1''"
    by (simp_all add: empty_stub_def present_def)
  have "CreateAsset chess_stub ''asset1'' (JStr ''Chess'') (JStr ''Robert'') (JStr ''player'') (JNum 100)
     = (Inl (AlreadyExists ''asset1''), chess_stub)"
    using CreateAsset_creates [OF chess_stub_faults w, of "''asset1''"] chess_stub_present by simp
  moreover have "\<exists>s'. CreateAsset empty_stub ''asset1'' (JStr ''Chess'') (JStr ''Robert'') (JStr ''player'') (JNum 100)
     = (Inr (JSON_stringify chess_asset), s')
     \<and> states s' = AList.update ''asset1'' (stringify (sortKeysRecursive chess_asset)) (states empty_stub)
     \<and> faults s' = []"
    using CreateAsset_creates [OF e(1) w, of "''asset1''"] e(2) by (auto simp: chess_asset_def)
  then have "CreateAsset empty_stub ''asset1'' (JStr ''Chess'') (JStr ''Robert'') (JStr ''player'') (JNum 100)
     = (Inr (JSON_stringify chess_asset), chess_stub)"
    by (auto simp: chess_stub_def empty_stub_def)
  ultimately show ?thesis
    by (simp add: chess_reply chess_stub_def chess_bytes)
qed

text \<open>
  The value \<^verbatim>\<open>CreateAsset\<close> returns for the scenario's asset starts with \<^verbatim>\<open>id\<close>; the
  canonical encoding, which is what the store holds, starts with \<^verbatim>\<open>game_name\<close>.
\<close>

theorem CreateAsset_reply_not_canonical:
  \<open>fst (CreateAsset empty_stub ''asset1'' (JStr ''Chess'') (JStr ''Robert'') (JStr ''player'') (JNum 100))
     = Inr ''{"id":"asset1","game_name":"Chess","owner_name":"Robert","owner_type":"player","game_value":100}''
   \<and> stringify (sortKeysRecursive (new_asset ''asset1'' (JStr ''Chess'') (JStr ''Robert'') (JStr ''player'') (JNum 100)))
     = ''{"game_name":"Chess","game_value":100,"id":"asset1","owner_name":"Robert","owner_type":"player"}''
   \<and> \<not> canonical ''{"id":"asset1","game_name":"Chess","owner_name":"Robert","owner_type":"player","game_value":100}''\<close>
proof -
  have p: "JSON_parse (JSON_stringify chess_asset) = Some chess_asset"
    by (rule JSON_parse_stringify) (simp add: chess_asset_def new_asset_def)
  have "\<not> keys_sorted chess_asset"
    by (simp add: chess_asset_def new_asset_def)
  then have "\<not> canonical (JSON_stringify chess_asset)"
    by (simp add: canonical_def p)
  then show ?thesis
    using chess_bytes by (simp add: chess_create chess_reply chess_asset_def [symmetric])
qed

lemma seed_writes_nth:
  assumes "j < 6"
  shows "fst (seed_writes ! j) \<in> set (map fst seed_writes)"
    and "snd (seed_writes ! j) \<noteq> []"
    and "tagged_record (fst (seed_writes ! j)) (snd (seed_writes ! j))"
proof -
  from assms have j: "j < length seed_writes" by (simp add: seed_writes_length)
  then show "fst (seed_writes ! j) \<in> set (map fst seed_writes)" by simp
  have "\<forall>w \<in> set seed_writes. snd w \<noteq> []"
    by (auto simp: seed_writes_def stringify_nonempty)
  with j show "snd (seed_writes ! j) \<noteq> []" by simp
  from seed_writes_tagged j show "tagged_record (fst (seed_writes ! j)) (snd (seed_writes ! j))"
    by (simp add: list_all_length)
qed

lemma tagged_record_fields: "tagged_record key bytes \<Longrightarrow> ''docType'' \<in> set (fields_of bytes)"
  by (auto simp: tagged_record_def fields_of_def split: option.splits json.splits
      dest: map_of_SomeD intro: rev_image_eqI)

text \<open>
  Claim C5. On a stored id \<^verbatim>\<open>UpdateAsset\<close> replaces the value by the canonical encoding
  of a record built from its arguments alone: the stored record has the five fields of
  the arguments and no other, whatever was stored before. In particular a seed of
  \<^verbatim>\<open>InitLedger\<close>, which carries \<^verbatim>\<open>docType\<close>, carries it no more after \<^verbatim>\<open>UpdateAsset\<close>.
\<close>

theorem UpdateAsset_replaces:
  assumes "faults s = []" "wf_json gn" "wf_json own" "wf_json ot" "wf_json gv"
  shows "(present s id' \<longrightarrow>
           (\<exists>s' bytes.
              UpdateAsset s id' gn own ot gv = (Inr (), s')
            \<and> states s' = AList.update id' bytes (states s)
            \<and> map_of (states s') id' = Some bytes
            \<and> bytes = stringify (sortKeysRecursive (new_asset id' gn own ot gv))
            \<and> JSON_parse bytes =
                 Some (JObj [(''game_name'', sortKeysRecursive gn), (''game_value'', sortKeysRecursive gv),
                             (''id'', JStr id'), (''owner_name'', sortKeysRecursive own),
                             (''owner_type'', sortKeysRecursive ot)])
            \<and> fields_of bytes = [''game_name'', ''game_value'', ''id'', ''owner_name'', ''owner_type'']))
    \<and> (\<forall>j<6. \<exists>key s1 old s2 bytes.
           key = fst (seed_writes ! j)
         \<and> InitLedger s = (Inr (), s1) \<and> map_of (states s1) key = Some old
         \<and> ''docType'' \<in> set (fields_of old)
         \<and> UpdateAsset s1 key gn own ot gv = (Inr (), s2) \<and> map_of (states s2) key = Some bytes
         \<and> fields_of bytes = [''game_name'', ''game_value'', ''id'', ''owner_name'', ''owner_type''])"
proof (intro conjI impI allI)
  assume "present s id'"
  with assms show "\<exists>s' bytes.
              UpdateAsset s id' gn own ot gv = (Inr (), s')
            \<and> states s' = AList.update id' bytes (states s)
            \<and> map_of (states s') id' = Some bytes
            \<and> bytes = stringify (sortKeysRecursive (new_asset id' gn own ot gv))
            \<and> JSON_parse bytes =
                 Some (JObj [(''game_name'', sortKeysRecursive gn), (''game_value'', sortKeysRecursive gv),
                             (''id'', JStr id'), (''owner_name'', sortKeysRecursive own),
                             (''owner_type'', sortKeysRecursive ot)])
            \<and> fields_of bytes = [''game_name'', ''game_value'', ''id'', ''owner_name'', ''owner_type'']"
    by (simp add: UpdateAsset_ok new_asset_stored fields_of_def update_conv')
next
  fix j :: nat
  assume j: "j < 6"
  let ?key = "fst (seed_writes ! j)" and ?old = "snd (seed_writes ! j)"
  let ?s1 = "s\<lparr>states := write_all seed_writes (states s)\<rparr>"
  let ?bytes = "stringify (sortKeysRecursive (new_asset ?key gn own ot gv))"
  let ?s2 = "?s1\<lparr>states := AList.update ?key ?bytes (states ?s1)\<rparr>"
  have i: "InitLedger s = (Inr (), ?s1)"
    unfolding InitLedger_def using assms(1) seed_asset_writes by (rule InitLedger_loop_ok)
  have o: "map_of (states ?s1) ?key = Some ?old"
    using j by (simp add: map_of_write_all_nth seed_writes_distinct seed_writes_length)
  have d: "''docType'' \<in> set (fields_of ?old)"
    using seed_writes_nth(3) [OF j] by (rule tagged_record_fields)
  have p: "present ?s1 ?key"
    using o seed_writes_nth(2) [OF j] by (simp add: present_def)
  have u: "UpdateAsset ?s1 ?key gn own ot gv = (Inr (), ?s2)"
    using assms(1) p by (simp add: UpdateAsset_ok)
  have b: "map_of (states ?s2) ?key = Some ?bytes"
    by (simp add: update_conv')
  have f: "fields_of ?bytes = [''game_name'', ''game_value'', ''id'', ''owner_name'', ''owner_type'']"
    using assms by (simp add: new_asset_stored fields_of_def)
  from i o d u b f
  show "\<exists>key s1 old s2 bytes.
           key = fst (seed_writes ! j)
         \<and> InitLedger s = (Inr (), s1) \<and> map_of (states s1) key = Some old
         \<and> ''docType'' \<in> set (fields_of old)
         \<and> UpdateAsset s1 key gn own ot gv = (Inr (), s2) \<and> map_of (states s2) key = Some bytes
         \<and> fields_of bytes = [''game_name'', ''game_value'', ''id'', ''owner_name'', ''owner_type'']"
    by blast
qed

theorem UpdateAsset_replaces_witness:
  \<open>(\<exists>s1 s2.
       InitLedger empty_stub = (Inr (), s1)
     \<and> map_of (states s1) ''asset1''
         = Some ''{"docType":"asset","game_name":"game1","game_value":300,"id":"asset1","owner_name":"Tomoko","owner_type":"player"}''
     \<and> UpdateAsset s1 ''asset1'' (JStr ''Chess'') (JStr ''Me'') (JStr ''player'') (JNum 500) = (Inr (), s2)
     \<and> map_of (states s2) ''asset1''
         = Some ''{"game_name":"Chess","game_value":500,"id":"asset1","owner_name":"Me","owner_type":"player"}'')\<close>
proof -
  have w: "wf_json (JStr ''Chess'')" "wf_json (JStr ''Me'')" "wf_json (JStr ''player'')" "wf_json (JNum 500)"
    by simp_all
  have e: "faults empty_stub = []" by (simp add: empty_stub_def)
  let ?s1 = "empty_stub\<lparr>states := write_all seed_writes (states empty_stub)\<rparr>"
  have i: "InitLedger empty_stub = (Inr (), ?s1)"
    unfolding InitLedger_def using e seed_asset_writes by (rule InitLedger_loop_ok)
  have k: "fst (seed_writes ! 0) = ''asset1''"
    by (simp add: seed_writes_def seed_assets_def)
  have o: \<open>map_of (states ?s1) ''asset1''
         = Some ''{"docType":"asset","game_name":"game1","game_value":300,"id":"asset1","owner_name":"Tomoko","owner_type":"player"}''\<close>
    using map_of_write_all_nth [OF seed_writes_distinct, of 0 "[]"] k
    by (simp add: seed_writes_length empty_stub_def) (simp add: seed_writes_text)
  have p: "present ?s1 ''asset1''"
    using o by (simp add: present_def)
  have f: "faults ?s1 = []" by (simp add: empty_stub_def)
  have t: \<open>stringify (sortKeysRecursive (new_asset ''asset1'' (JStr ''Chess'') (JStr ''Me'') (JStr ''player'') (JNum 500)))
      = ''{"game_name":"Chess","game_value":500,"id":"asset1","owner_name":"Me","owner_type":"player"}''\<close>
    by code_simp
  from UpdateAsset_replaces [OF f w, of "''asset1''"] p
  obtain s2 bytes where "UpdateAsset ?s1 ''asset1'' (JStr ''Chess'') (JStr ''Me'') (JStr ''player'') (JNum 500) = (Inr (), s2)"
    "map_of (states s2) ''asset1'' = Some bytes"
    "bytes = stringify (sortKeysRecursive (new_asset ''asset1'' (JStr ''Chess'') (JStr ''Me'') (JStr ''player'') (JNum 500)))"
    by blast
  with i o t show ?thesis by auto
qed

section \<open>GetAllAssets\<close>

lemma GetAllAssets_loop_map:
  "GetAllAssets_loop iterator allResults = allResults @ map (\<lambda>result. decode_or_raw (snd result)) iterator"
  by (induction iterator arbitrary: allResults) (simp_all add: decode_or_raw_def Let_def)

lemma GetAllAssets_ok:
  "faults s = [] \<Longrightarrow>
     GetAllAssets s = (Inr (JSON_stringify (JArr (map (\<lambda>result. decode_or_raw (snd result)) (states s)))), s)"
  by (simp add: GetAllAssets_def getStateByRange_ok GetAllAssets_loop_map)

lemma decode_or_raw_wf: "wf_json (decode_or_raw strValue)"
  by (auto simp: decode_or_raw_def split: option.splits dest: JSON_parse_wf)

lemma present_key: "present s k \<Longrightarrow> k \<in> fst ` set (states s)"
  by (auto simp: present_def split: option.splits dest: map_of_SomeD intro: rev_image_eqI)

lemma create_all_states:
  "faults s = [] \<Longrightarrow> distinct (map fst rs) \<Longrightarrow> fst ` set rs \<inter> fst ` set (states s) = {} \<Longrightarrow>
     faults (create_all s rs) = []
     \<and> states (create_all s rs) =
         states s @ map (\<lambda>(k, gn, own, ot, gv). (k, stringify (sortKeysRecursive (new_asset k gn own ot gv)))) rs"
proof (induction rs arbitrary: s)
  case Nil
  then show ?case by simp
next
  case (Cons r rs)
  obtain k gn own ot gv where r: "r = (k, gn, own, ot, gv)" by (cases r) auto
  let ?b = "stringify (sortKeysRecursive (new_asset k gn own ot gv))"
  let ?s' = "s\<lparr>states := states s @ [(k, ?b)]\<rparr>"
  from Cons.prems(3) r have fresh: "k \<notin> fst ` set (states s)" by auto
  then have "\<not> present s k" using present_key by blast
  then have c: "snd (CreateAsset s k gn own ot gv) = ?s'"
    using Cons.prems(1) fresh by (simp add: CreateAsset_ok update_fresh)
  have "fst ` set rs \<inter> fst ` set (states ?s') = {}"
    using Cons.prems(2,3) r by auto
  then have "faults (create_all ?s' rs) = []
     \<and> states (create_all ?s' rs) =
         states ?s' @ map (\<lambda>(k, gn, own, ot, gv). (k, stringify (sortKeysRecursive (new_asset k gn own ot gv)))) rs"
    using Cons.IH [of ?s'] Cons.prems(1,2) by simp
  then show ?case by (simp add: r c)
qed

text \<open>
  Claim C6. \<^verbatim>\<open>GetAllAssets\<close> returns the JSON text of an array with one entry for each
  entry of the store, in scan order: the parsed value, or the stored text as a string
  when it does not parse; the call does not fail on such a value. After \<open>N\<close> records
  with distinct ids were created in an empty store, the array has \<open>N\<close> entries. (The host
  rejects no call.)
\<close>

theorem GetAllAssets_entries:
  assumes "faults s = []"
  shows "(\<exists>entries.
            GetAllAssets s = (Inr (JSON_stringify (JArr entries)), s)
          \<and> JSON_parse (JSON_stringify (JArr entries)) = Some (JArr entries)
          \<and> length entries = length (states s)
          \<and> (\<forall>i<length (states s).
                entries ! i = (case JSON_parse (snd (states s ! i)) of
                                 None \<Rightarrow> JStr (snd (states s ! i))
                               | Some parsed \<Rightarrow> parsed)))
    \<and> (distinct (map fst rs) \<longrightarrow>
          (\<exists>entries.
             GetAllAssets (create_all empty_stub rs) = (Inr (JSON_stringify (JArr entries)), create_all empty_stub rs)
           \<and> JSON_parse (JSON_stringify (JArr entries)) = Some (JArr entries)
           \<and> length entries = length rs))"
proof (intro conjI impI)
  let ?entries = "map (\<lambda>result. decode_or_raw (snd result)) (states s)"
  have "wf_json (JArr ?entries)"
    by (simp add: wf_elems_iff decode_or_raw_wf)
  then have "JSON_parse (JSON_stringify (JArr ?entries)) = Some (JArr ?entries)"
    by (rule JSON_parse_stringify)
  moreover have "GetAllAssets s = (Inr (JSON_stringify (JArr ?entries)), s)"
    using assms by (rule GetAllAssets_ok)
  moreover have "\<forall>i<length (states s).
      ?entries ! i = (case JSON_parse (snd (states s ! i)) of
                        None \<Rightarrow> JStr (snd (states s ! i)) | Some parsed \<Rightarrow> parsed)"
    by (simp add: decode_or_raw_def)
  ultimately show "\<exists>entries.
            GetAllAssets s = (Inr (JSON_stringify (JArr entries)), s)
          \<and> JSON_parse (JSON_stringify (JArr entries)) = Some (JArr entries)
          \<and> length entries = length (states s)
          \<and> (\<forall>i<length (states s).
                entries ! i = (case JSON_parse (snd (states s ! i)) of
                                 None \<Rightarrow> JStr (snd (states s ! i))
                               | Some parsed \<Rightarrow> parsed))"
    by (intro exI [of _ ?entries]) simp
next
  assume d: "distinct (map fst rs)"
  let ?s = "create_all empty_stub rs"
  let ?entries = "map (\<lambda>result. decode_or_raw (snd result)) (states ?s)"
  have c: "faults ?s = []" "length (states ?s) = length rs"
    using create_all_states [of empty_stub rs] d by (simp_all add: empty_stub_def)
  have "wf_json (JArr ?entries)"
    by (simp add: wf_elems_iff decode_or_raw_wf)
  then have "JSON_parse (JSON_stringify (JArr ?entries)) = Some (JArr ?entries)"
    by (rule JSON_parse_stringify)
  moreover have "GetAllAssets ?s = (Inr (JSON_stringify (JArr ?entries)), ?s)"
    using c(1) by (rule GetAllAssets_ok)
  ultimately show "\<exists>entries.
             GetAllAssets ?s = (Inr (JSON_stringify (JArr entries)), ?s)
           \<and> JSON_parse (JSON_stringify (JArr entries)) = Some (JArr entries)
           \<and> length entries = length rs"
    using c(2) by (intro exI [of _ ?entries]) simp
qed

theorem GetAllAssets_entries_witness:
  \<open>GetAllAssets mixed_stub
     = (Inr ''["non-json-value",{"game_name":"Poker","game_value":200,"id":"asset2","owner_name":"Paul","owner_type":"player"}]'',
        mixed_stub)
   \<and> (\<exists>entries.
         GetAllAssets (create_all empty_stub
            [(''asset1'', JStr ''Chess'', JStr ''Robert'', JStr ''player'', JNum 100),
             (''asset2'', JStr ''Poker'', JStr ''Paul'', JStr ''player'', JNum 200)])
           = (Inr (JSON_stringify (JArr entries)),
              create_all empty_stub
                [(''asset1'', JStr ''Chess'', JStr ''Robert'', JStr ''player'', JNum 100),
                 (''asset2'', JStr ''Poker'', JStr ''Paul'', JStr ''player'', JNum 200)])
         \<and> length entries = 2)\<close>
proof -
  have f: "faults mixed_stub = []" by (simp add: mixed_stub_def)
  let ?rs = "[(''asset1'', JStr ''Chess'', JStr ''Robert'', JStr ''player'', JNum 100),
              (''asset2'', JStr ''Poker'', JStr ''Paul'', JStr ''player'', JNum 200)]"
  from GetAllAssets_entries [OF f, of ?rs]
  obtain entries where e: "GetAllAssets mixed_stub = (Inr (JSON_stringify (JArr entries)), mixed_stub)"
    "length entries = length (states mixed_stub)"
    "\<forall>i<length (states mixed_stub).
        entries ! i = (case JSON_parse (snd (states mixed_stub ! i)) of
                         None \<Rightarrow> JStr (snd (states mixed_stub ! i)) | Some parsed \<Rightarrow> parsed)"
    and n: "\<exists>entries. GetAllAssets (create_all empty_stub ?rs)
               = (Inr (JSON_stringify (JArr entries)), create_all empty_stub ?rs) \<and> length entries = length ?rs"
    by auto
  have p1: "JSON_parse ''non-json-value'' = None" by code_simp
  have p2: "JSON_parse (stringify (sortKeysRecursive
                (new_asset ''asset2'' (JStr ''Poker'') (JStr ''Paul'') (JStr ''player'') (JNum 200))))
            = Some (sortKeysRecursive (new_asset ''asset2'' (JStr ''Poker'') (JStr ''Paul'') (JStr ''player'') (JNum 200)))"
    by (rule JSON_parse_encode) (simp add: new_asset_def)
  from e(2) obtain a b where ab: "entries = [a, b]"
    by (cases entries; cases "tl entries") (auto simp: mixed_stub_def)
  from e(3) [rule_format, of 0] e(3) [rule_format, of 1]
  have "a = JStr ''non-json-value''"
    "b = sortKeysRecursive (new_asset ''asset2'' (JStr ''Poker'') (JStr ''Paul'') (JStr ''player'') (JNum 200))"
    using p1 p2 by (simp_all add: ab mixed_stub_def del: sortKeysRecursive.simps)
  then have "entries = [JStr ''non-json-value'',
      sortKeysRecursive (new_asset ''asset2'' (JStr ''Poker'') (JStr ''Paul'') (JStr ''player'') (JNum 200))]"
    by (simp only: ab)
  moreover have \<open>JSON_stringify (JArr [JStr ''non-json-value'',
      sortKeysRecursive (new_asset ''asset2'' (JStr ''Poker'') (JStr ''Paul'') (JStr ''player'') (JNum 200))])
     = ''["non-json-value",{"game_name":"Poker","game_value":200,"id":"asset2","owner_name":"Paul","owner_type":"player"}]''\<close>
    by code_simp
  ultimately have \<open>JSON_stringify (JArr entries)
     = ''["non-json-value",{"game_name":"Poker","game_value":200,"id":"asset2","owner_name":"Paul","owner_type":"player"}]''\<close>
    by (simp only:)
  with e(1) have g: \<open>GetAllAssets mixed_stub
     = (Inr ''["non-json-value",{"game_name":"Poker","game_value":200,"id":"asset2","owner_name":"Paul","owner_type":"player"}]'',
        mixed_stub)\<close>
    by (simp only:)
  from n obtain es where es: "GetAllAssets (create_all empty_stub ?rs)
         = (Inr (JSON_stringify (JArr es)), create_all empty_stub ?rs)" "length es = length ?rs"
    by blast
  from es(2) have "length es = 2" by simp
  with g es(1) show ?thesis by blast
qed

section \<open>The canonical encoding\<close>

lemma map_of_sort_key:
  "distinct (map fst ms) \<Longrightarrow> map_of (sort_key fst ms) = map_of ms"
proof -
  assume d: "distinct (map fst ms)"
  then have "distinct (map fst (sort_key fst ms))" by (simp add: distinct_keys_sort_key)
  moreover have "set (sort_key fst ms) = set ms" by simp
  ultimately show ?thesis using d by (simp add: map_of_inject_set)
qed

lemma map_of_sort_members:
  "map_of (sort_members ms) k = map_option sortKeysRecursive (map_of ms k)"
  by (induction ms) auto

lemma sorted_same: "wf_json v \<Longrightarrow> same_record v (sortKeysRecursive v)"
  and sorted_same_elems: "wf_elems xs \<Longrightarrow> list_all2 same_record xs (sort_elems xs)"
  and sorted_same_members:
    "wf_members ms \<Longrightarrow> \<forall>m \<in> set ms. same_record (snd m) (sortKeysRecursive (snd m))"
proof (induction v and xs and ms rule: sortKeysRecursive_sort_elems_sort_members.induct)
  case (1 xs)
  then show ?case by (simp add: same_array)
next
  case (2 ms)
  then have d: "distinct (map fst ms)" and m: "\<forall>m \<in> set ms. same_record (snd m) (sortKeysRecursive (snd m))"
    by simp_all
  show ?case
    unfolding sortKeysRecursive.simps
  proof (rule same_object)
    show "distinct (map fst ms)" by (rule d)
    show "distinct (map fst (sort_key fst (sort_members ms)))"
      using d by (simp add: distinct_keys_sort_key)
    show "set (map fst ms) = set (map fst (sort_key fst (sort_members ms)))"
      by (metis set_map set_sort sort_members_keys)
    show "\<forall>k v w. map_of ms k = Some v \<longrightarrow> map_of (sort_key fst (sort_members ms)) k = Some w
            \<longrightarrow> same_record v w"
    proof (intro allI impI)
      fix k v w
      assume v: "map_of ms k = Some v" and w: "map_of (sort_key fst (sort_members ms)) k = Some w"
      have "map_of (sort_key fst (sort_members ms)) k = map_option sortKeysRecursive (map_of ms k)"
        using d by (simp add: map_of_sort_key map_of_sort_members)
      with v w have "w = sortKeysRecursive v" by simp
      moreover have "(k, v) \<in> set ms" using v by (rule map_of_SomeD)
      ultimately show "same_record v w" using m by force
    qed
  qed
qed (simp_all add: same_value)

text \<open>
  Claim C9. The canonical encoder is \<^verbatim>\<open>stringify(sortKeysRecursive(r))\<close>, the decoder is
  \<^verbatim>\<open>JSON.parse\<close>. For every record \<open>r\<close> (a JavaScript value: objects have distinct keys)
  the encoding of \<open>r\<close> parses, the value it parses to is the same record as \<open>r\<close> up
  to the order of fields, and encoding that value gives the encoding of \<open>r\<close> again.
\<close>

theorem encode_decode_roundtrip:
  assumes "wf_json r"
  shows "\<exists>d. JSON_parse (stringify (sortKeysRecursive r)) = Some d
           \<and> same_record r d \<and> wf_json d
           \<and> stringify (sortKeysRecursive d) = stringify (sortKeysRecursive r)"
proof (intro exI [of _ "sortKeysRecursive r"] conjI)
  show "JSON_parse (stringify (sortKeysRecursive r)) = Some (sortKeysRecursive r)"
    using assms by (rule JSON_parse_encode)
  show "same_record r (sortKeysRecursive r)" using assms by (rule sorted_same)
  show "wf_json (sortKeysRecursive r)" using assms by (rule sortKeysRecursive_wf)
  show "stringify (sortKeysRecursive (sortKeysRecursive r)) = stringify (sortKeysRecursive r)"
    by (simp add: sortKeysRecursive_idem)
qed

theorem encode_decode_roundtrip_witness:
  \<open>stringify (sortKeysRecursive chess_asset)
     = ''{"game_name":"Chess","game_value":100,"id":"asset1","owner_name":"Robert","owner_type":"player"}''
   \<and> (\<exists>d. JSON_parse ''{"game_name":"Chess","game_value":100,"id":"asset1","owner_name":"Robert","owner_type":"player"}''
             = Some d
          \<and> same_record chess_asset d
          \<and> stringify (sortKeysRecursive d)
             = ''{"game_name":"Chess","game_value":100,"id":"asset1","owner_name":"Robert","owner_type":"player"}'')\<close>
proof -
  have "wf_json chess_asset" by (simp add: chess_asset_def new_asset_def)
  from encode_decode_roundtrip [OF this] show ?thesis
    by (simp only: chess_bytes) blast
qed

lemma lex_scan_append:
  "lex_scan st (xs @ ys) = (case lex_scan st xs of None \<Rightarrow> None | Some st' \<Rightarrow> lex_scan st' ys)"
  by (induction xs arbitrary: st) (auto split: option.splits)

lemma digit_char_plain: "d < 16 \<Longrightarrow> digit_char d \<noteq> DQ \<and> digit_char d \<noteq> BS \<and> \<not> is_ws (digit_char d)"
  using hex_cases [of d] by (auto simp: digit_char_def is_ws_def)

lemma lex_scan_escape: "lex_scan Inside (escape_char c) = Some Inside"
proof -
  have "(of_char c :: nat) div 16 < 16" if "(of_char c :: nat) < 32"
    using that by simp
  moreover have "(of_char c :: nat) mod 16 < 16" by simp
  ultimately show ?thesis
    using digit_char_plain [of "of_char c div 16"] digit_char_plain [of "of_char c mod 16"]
    by (auto simp: escape_char_def)
qed

lemma lex_scan_body: "lex_scan Inside (concat (map escape_char s)) = Some Inside"
  by (induction s) (simp_all add: lex_scan_append lex_scan_escape)

lemma lex_scan_quote: "lex_scan Outside (quote s) = Some Outside"
  by (simp add: quote_def is_ws_def lex_scan_append lex_scan_body)

lemma lex_scan_digits: "\<forall>c \<in> set ds. is_digit c \<Longrightarrow> lex_scan Outside ds = Some Outside"
  by (induction ds) (auto simp: is_digit_def is_ws_def)

lemma lex_scan_show_int: "lex_scan Outside (show_int i) = Some Outside"
  by (simp add: show_int_def lex_scan_digits digits_of_digits is_ws_def)

lemma lex_scan_stringify: "lex_scan Outside (JSON_stringify v) = Some Outside"
  and lex_scan_elems: "lex_scan Outside (stringify_elems xs) = Some Outside"
  and lex_scan_members: "lex_scan Outside (stringify_members ms) = Some Outside"
  by (induction v and xs and ms rule: JSON_stringify_stringify_elems_stringify_members.induct)
    (simp_all add: lex_scan_append lex_scan_quote lex_scan_show_int is_ws_def)

lemma compact_stringify: "compact (JSON_stringify v)"
  by (simp add: compact_def lex_scan_stringify)

lemma canonical_encode: "wf_json r \<Longrightarrow> canonical (stringify (sortKeysRecursive r))"
  by (simp add: canonical_def stringify_sorted JSON_parse_stringify sortKeysRecursive_wf
      sortKeysRecursive_sorted)

lemma wf_members_lookup: "wf_members ms \<Longrightarrow> map_of ms k = Some v \<Longrightarrow> wf_json v"
  using map_of_SomeD [of ms k v] by (force simp: wf_members_iff)

lemma same_record_encode:
  "same_record a b \<Longrightarrow> wf_json a \<Longrightarrow> wf_json b \<Longrightarrow> sortKeysRecursive a = sortKeysRecursive b"
proof (induction rule: same_record.induct)
  case (same_value v)
  then show ?case by simp
next
  case (same_array xs ys)
  have "list_all2 (\<lambda>x y. wf_json x \<longrightarrow> wf_json y \<longrightarrow> sortKeysRecursive x = sortKeysRecursive y) xs ys"
    using same_array.IH by (rule list_all2_mono) simp
  moreover have "wf_elems xs" "wf_elems ys"
    using same_array.prems by simp_all
  ultimately have "sort_elems xs = sort_elems ys"
  proof (induction xs ys rule: list_all2_induct)
    case Nil
    then show ?case by simp
  next
    case (Cons x xs y ys)
    then show ?case by simp
  qed
  then show ?case by simp
next
  case (same_object ms ns)
  have wm: "wf_members ms" and wn: "wf_members ns"
    using same_object.prems by simp_all
  have eq: "map_of (sort_members ms) k = map_of (sort_members ns) k" for k
  proof (cases "map_of ms k")
    case None
    then have "k \<notin> set (map fst ms)" by (simp add: map_of_eq_None_iff)
    then have "k \<notin> set (map fst ns)" using same_object.hyps(3) by simp
    then have "map_of ns k = None" by (simp add: map_of_eq_None_iff)
    with None show ?thesis by (simp add: map_of_sort_members)
  next
    case (Some v)
    then have "k \<in> set (map fst ns)"
      using same_object.hyps(3) by (metis domI dom_map_of_conv_image_fst set_map)
    then obtain w where w: "map_of ns k = Some w"
      by (metis domD dom_map_of_conv_image_fst set_map)
    have "wf_json v" using wm Some by (rule wf_members_lookup)
    moreover have "wf_json w" using wn w by (rule wf_members_lookup)
    ultimately have "sortKeysRecursive v = sortKeysRecursive w"
      using same_object.IH Some w by blast
    with Some w show ?thesis by (simp add: map_of_sort_members)
  qed
  let ?a = "sort_key fst (sort_members ms)" and ?b = "sort_key fst (sort_members ns)"
  have da: "distinct (map fst ?a)" and db: "distinct (map fst ?b)"
    using same_object.hyps(1,2) by (simp_all add: distinct_keys_sort_key)
  have "map_of ?a = map_of ?b"
    using same_object.hyps(1,2) eq by (simp add: map_of_sort_key fun_eq_iff)
  then have s: "set ?a = set ?b"
    using da db by (simp add: map_of_inject_set)
  have "inj_on fst (set ?a \<union> set ?b)"
    using da s by (simp add: distinct_map)
  then have "?a = ?b"
    using da db s by (intro map_sorted_distinct_set_unique [of fst]) simp_all
  then show ?case by simp
qed

subsection \<open>What the handlers write\<close>

text \<open>What a handler can do to the store, whichever calls the host rejects.\<close>

lemma CreateAsset_states:
  "states (snd (CreateAsset s k gn own ot gv)) = states s
   \<or> states (snd (CreateAsset s k gn own ot gv))
       = AList.update k (stringify (sortKeysRecursive (new_asset k gn own ot gv))) (states s)"
  by (auto simp: CreateAsset_def AssetExists_def getState_def putState_def next_fault_def Let_def
      split: list.splits bool.splits option.splits)

lemma UpdateAsset_states:
  "states (snd (UpdateAsset s k gn own ot gv)) = states s
   \<or> states (snd (UpdateAsset s k gn own ot gv))
       = AList.update k (stringify (sortKeysRecursive (new_asset k gn own ot gv))) (states s)"
  by (auto simp: UpdateAsset_def AssetExists_def getState_def putState_def next_fault_def Let_def
      split: list.splits bool.splits option.splits)

lemma DeleteAsset_states:
  "states (snd (DeleteAsset s k)) = states s
   \<or> states (snd (DeleteAsset s k)) = AList.delete k (states s)"
  by (auto simp: DeleteAsset_def AssetExists_def getState_def deleteState_def next_fault_def Let_def
      split: list.splits bool.splits option.splits)

lemma ReadAsset_cases:
  "ReadAsset s k = (r, s') \<Longrightarrow>
     states s' = states s \<and> (\<forall>bytes. r = Inr bytes \<longrightarrow> map_of (states s) k = Some bytes \<and> bytes \<noteq> [])"
  by (auto simp: ReadAsset_def getState_def next_fault_def
      split: list.splits bool.splits option.splits if_splits)

lemma TransferAsset_states:
  "states (snd (TransferAsset s k newOwner)) = states s
   \<or> (\<exists>bytes asset asset'.
         map_of (states s) k = Some bytes \<and> JSON_parse bytes = Some asset
       \<and> set_prop asset ''owner_name'' newOwner = Inr asset'
       \<and> states (snd (TransferAsset s k newOwner))
           = AList.update k (stringify (sortKeysRecursive asset')) (states s))"
proof (cases "ReadAsset s k")
  case (Pair r s1)
  note rd = ReadAsset_cases [OF Pair]
  show ?thesis
  proof (cases r)
    case (Inl e)
    with Pair rd show ?thesis by (simp add: TransferAsset_def)
  next
    case (Inr bytes)
    with rd have st: "states s1 = states s" and b: "map_of (states s) k = Some bytes" by simp_all
    show ?thesis
    proof (cases "JSON_parse bytes")
      case None
      with Pair Inr st show ?thesis by (simp add: TransferAsset_def)
    next
      case (Some asset)
      show ?thesis
      proof (cases "set_prop asset ''owner_name'' newOwner")
        case (Inl e)
        with Pair Inr Some st show ?thesis
          by (simp add: TransferAsset_def split: sum.splits)
      next
        case asset': (Inr asset')
        with Pair Inr Some st b show ?thesis
          by (auto simp: TransferAsset_def putState_def next_fault_def
              split: sum.splits list.splits bool.splits)
      qed
    qed
  qed
qed

lemma putState_cases:
  "(\<exists>s'. putState s k b = (Inr (), s') \<and> states s' = AList.update k b (states s))
   \<or> (\<exists>s'. putState s k b = (Inl StoreError, s') \<and> states s' = states s)"
proof (cases "faults s")
  case Nil
  then show ?thesis by (simp add: putState_def next_fault_def)
next
  case (Cons f fs)
  then show ?thesis by (cases f) (simp_all add: putState_def next_fault_def)
qed

lemma InitLedger_loop_states:
  "map asset_write assets = map Some writes \<Longrightarrow>
     \<exists>n \<le> length writes. states (snd (InitLedger_loop s assets)) = write_all (take n writes) (states s)"
proof (induction assets arbitrary: s writes)
  case Nil
  then show ?case by simp
next
  case (Cons asset assets)
  from Cons.prems obtain w ws where w: "writes = w # ws" "asset_write asset = Some w"
    "map asset_write assets = map Some ws"
    by (cases writes) auto
  have step: "InitLedger_loop s (asset # assets) =
       (case putState s (fst w) (snd w) of
          (Inl e, s') \<Rightarrow> (Inl e, s')
        | (Inr u, s') \<Rightarrow> InitLedger_loop s' assets)"
    by (rule InitLedger_loop_step) (simp add: w(2))
  from putState_cases [of s "fst w" "snd w"] show ?case
  proof
    assume "\<exists>s'. putState s (fst w) (snd w) = (Inr (), s') \<and> states s' = AList.update (fst w) (snd w) (states s)"
    then obtain s' where p: "putState s (fst w) (snd w) = (Inr (), s')"
      and st: "states s' = AList.update (fst w) (snd w) (states s)"
      by blast
    from Cons.IH [OF w(3), of s'] obtain n where n: "n \<le> length ws"
      "states (snd (InitLedger_loop s' assets)) = write_all (take n ws) (states s')"
      by blast
    have "InitLedger_loop s (asset # assets) = InitLedger_loop s' assets"
      unfolding step p by simp
    then have "states (snd (InitLedger_loop s (asset # assets))) = write_all (take (Suc n) writes) (states s)"
      using n(2) st by (simp add: w(1))
    moreover have "Suc n \<le> length writes" using n(1) w(1) by simp
    ultimately show ?thesis by blast
  next
    assume "\<exists>s'. putState s (fst w) (snd w) = (Inl StoreError, s') \<and> states s' = states s"
    then obtain s' where p: "putState s (fst w) (snd w) = (Inl StoreError, s')"
      and st: "states s' = states s"
      by blast
    have "InitLedger_loop s (asset # assets) = (Inl StoreError, s')"
      unfolding step p by simp
    then have "states (snd (InitLedger_loop s (asset # assets))) = write_all (take 0 writes) (states s)"
      using st by simp
    then show ?thesis by blast
  qed
qed

lemma InitLedger_states:
  "\<exists>n \<le> 6. states (snd (InitLedger s)) = write_all (take n seed_writes) (states s)"
  using InitLedger_loop_states [OF seed_asset_writes, of s]
  by (simp add: InitLedger_def seed_writes_length)

lemma set_prop_wf:
  "wf_json asset \<Longrightarrow> wf_json v \<Longrightarrow> set_prop asset k v = Inr asset' \<Longrightarrow> wf_json asset'"
proof (cases asset)
  case (JObj ms)
  assume "wf_json asset" "wf_json v" "set_prop asset k v = Inr asset'"
  with JObj have d: "distinct (map fst ms)" and m: "wf_members ms" and a: "asset' = JObj (AList.update k v ms)"
    and v: "wf_json v"
    by auto
  have "distinct (map fst (AList.update k v ms))" using d by (simp add: distinct_update)
  moreover have "wf_members (AList.update k v ms)"
    using m v set_update_subset [of k v ms] by (auto simp: wf_members_iff)
  ultimately show ?thesis using a by simp
qed auto

lemma compact_encode: "compact (stringify v)"
  by (simp add: stringify_def compact_stringify)

lemma seed_writes_compact: "list_all (\<lambda>w. compact (snd w)) seed_writes"
  by (simp add: seed_writes_def list_all_iff compact_encode del: sortKeysRecursive.simps)

text \<open>
  Claim C1. Whatever the host rejects, \<^verbatim>\<open>InitLedger\<close>, \<^verbatim>\<open>CreateAsset\<close>, \<^verbatim>\<open>UpdateAsset\<close>
  and \<^verbatim>\<open>TransferAsset\<close> leave the store as it was or put under the key
  \<^verbatim>\<open>stringify(sortKeysRecursive(record))\<close> for the record they built, and these bytes are
  canonical (the keys of every object, nested ones too, in ascending order; the text is
  what printing its parse gives) and compact (no white space outside strings). The bytes
  are the same for two records that differ in the order of their fields only. (The
  arguments are JavaScript values: objects have distinct keys.)
\<close>

theorem writes_are_canonical:
  assumes "wf_json gn" "wf_json own" "wf_json ot" "wf_json gv" "wf_json newOwner"
  shows "(\<exists>n\<le>6. states (snd (InitLedger s)) = write_all (take n seed_writes) (states s))
    \<and> list_all (\<lambda>w. canonical (snd w) \<and> compact (snd w)) seed_writes
    \<and> (\<exists>bytes.
          bytes = stringify (sortKeysRecursive (new_asset id' gn own ot gv))
        \<and> canonical bytes \<and> compact bytes
        \<and> (states (snd (CreateAsset s id' gn own ot gv)) = states s
           \<or> states (snd (CreateAsset s id' gn own ot gv)) = AList.update id' bytes (states s))
        \<and> (states (snd (UpdateAsset s id' gn own ot gv)) = states s
           \<or> states (snd (UpdateAsset s id' gn own ot gv)) = AList.update id' bytes (states s)))
    \<and> (states (snd (TransferAsset s id' newOwner)) = states s
        \<or> (\<exists>old asset asset' bytes.
              map_of (states s) id' = Some old \<and> JSON_parse old = Some asset
            \<and> set_prop asset ''owner_name'' newOwner = Inr asset'
            \<and> bytes = stringify (sortKeysRecursive asset')
            \<and> canonical bytes \<and> compact bytes
            \<and> states (snd (TransferAsset s id' newOwner)) = AList.update id' bytes (states s)))
    \<and> (\<forall>r. wf_json r \<longrightarrow>
           canonical (stringify (sortKeysRecursive r)) \<and> compact (stringify (sortKeysRecursive r)))
    \<and> (\<forall>r r'. wf_json r \<and> wf_json r' \<and> same_record r r' \<longrightarrow>
           stringify (sortKeysRecursive r) = stringify (sortKeysRecursive r'))"
proof (intro conjI)
  show "\<exists>n\<le>6. states (snd (InitLedger s)) = write_all (take n seed_writes) (states s)"
    by (rule InitLedger_states)
  show "list_all (\<lambda>w. canonical (snd w) \<and> compact (snd w)) seed_writes"
    using seed_writes_tagged seed_writes_compact by (simp add: list_all_iff)
  have "wf_json (new_asset id' gn own ot gv)"
    using assms(1-4) by (rule new_asset_wf)
  then have "canonical (stringify (sortKeysRecursive (new_asset id' gn own ot gv)))"
    by (rule canonical_encode)
  then show "\<exists>bytes.
          bytes = stringify (sortKeysRecursive (new_asset id' gn own ot gv))
        \<and> canonical bytes \<and> compact bytes
        \<and> (states (snd (CreateAsset s id' gn own ot gv)) = states s
           \<or> states (snd (CreateAsset s id' gn own ot gv)) = AList.update id' bytes (states s))
        \<and> (states (snd (UpdateAsset s id' gn own ot gv)) = states s
           \<or> states (snd (UpdateAsset s id' gn own ot gv)) = AList.update id' bytes (states s))"
    using CreateAsset_states [of s id' gn own ot gv] UpdateAsset_states [of s id' gn own ot gv]
    by (simp add: compact_encode)
  show "states (snd (TransferAsset s id' newOwner)) = states s
        \<or> (\<exists>old asset asset' bytes.
              map_of (states s) id' = Some old \<and> JSON_parse old = Some asset
            \<and> set_prop asset ''owner_name'' newOwner = Inr asset'
            \<and> bytes = stringify (sortKeysRecursive asset')
            \<and> canonical bytes \<and> compact bytes
            \<and> states (snd (TransferAsset s id' newOwner)) = AList.update id' bytes (states s))"
  proof (rule disjE [OF TransferAsset_states [of s id' newOwner]])
    assume "states (snd (TransferAsset s id' newOwner)) = states s"
    then show ?thesis by simp
  next
    assume "\<exists>bytes asset asset'.
         map_of (states s) id' = Some bytes \<and> JSON_parse bytes = Some asset
       \<and> set_prop asset ''owner_name'' newOwner = Inr asset'
       \<and> states (snd (TransferAsset s id' newOwner))
           = AList.update id' (stringify (sortKeysRecursive asset')) (states s)"
    then obtain old asset asset' where t: "map_of (states s) id' = Some old" "JSON_parse old = Some asset"
      "set_prop asset ''owner_name'' newOwner = Inr asset'"
      "states (snd (TransferAsset s id' newOwner))
           = AList.update id' (stringify (sortKeysRecursive asset')) (states s)"
      by blast
    have "wf_json asset" using t(2) by (rule JSON_parse_wf)
    then have "wf_json asset'" using assms(5) t(3) by (rule set_prop_wf)
    then have "canonical (stringify (sortKeysRecursive asset'))" by (rule canonical_encode)
    with t show ?thesis by (auto simp: compact_encode)
  qed
  show "\<forall>r. wf_json r \<longrightarrow>
           canonical (stringify (sortKeysRecursive r)) \<and> compact (stringify (sortKeysRecursive r))"
    by (simp add: canonical_encode compact_encode)
  show "\<forall>r r'. wf_json r \<and> wf_json r' \<and> same_record r r' \<longrightarrow>
           stringify (sortKeysRecursive r) = stringify (sortKeysRecursive r')"
    using same_record_encode by auto
qed

theorem writes_are_canonical_witness:
  \<open>stringify (sortKeysRecursive chess_asset_reordered)
     = ''{"game_name":"Chess","game_value":100,"id":"asset1","owner_name":"Robert","owner_type":"player"}''
   \<and> canonical ''{"game_name":"Chess","game_value":100,"id":"asset1","owner_name":"Robert","owner_type":"player"}''
   \<and> compact ''{"game_name":"Chess","game_value":100,"id":"asset1","owner_name":"Robert","owner_type":"player"}''
   \<and> states (snd (CreateAsset empty_stub ''asset1'' (JStr ''Chess'') (JStr ''Robert'') (JStr ''player'') (JNum 100)))
       = [(''asset1'', ''{"game_name":"Chess","game_value":100,"id":"asset1","owner_name":"Robert","owner_type":"player"}'')]\<close>
proof -
  have w: "wf_json (JStr ''Chess'')" "wf_json (JStr ''Robert'')" "wf_json (JStr ''player'')" "wf_json (JNum 100)"
    "wf_json (JStr ''Me'')"
    by simp_all
  have wa: "wf_json chess_asset" "wf_json chess_asset_reordered"
    by (simp_all add: chess_asset_def new_asset_def chess_asset_reordered_def)
  have sr: "same_record chess_asset chess_asset_reordered"
    unfolding chess_asset_def new_asset_def chess_asset_reordered_def
    by (rule same_object) (auto simp: same_value)
  note t = writes_are_canonical [OF w, of empty_stub "''asset1''"]
  from t wa sr have "stringify (sortKeysRecursive chess_asset) = stringify (sortKeysRecursive chess_asset_reordered)"
    by blast
  moreover from t wa have "canonical (stringify (sortKeysRecursive chess_asset))"
    "compact (stringify (sortKeysRecursive chess_asset))"
    by blast+
  ultimately show ?thesis
    by (simp add: chess_bytes chess_create chess_stub_def)
qed

section \<open>TransferAsset\<close>

lemma JSON_parse_empty: "JSON_parse [] = None"
  by (simp add: JSON_parse_def parse_value.simps)

lemma keys_sorted_lookup:
  "keys_sorted (JObj ms) \<Longrightarrow> map_of ms k = Some v \<Longrightarrow> sortKeysRecursive v = v"
proof -
  assume a: "keys_sorted (JObj ms)" "map_of ms k = Some v"
  then have "(k, v) \<in> set ms" by (simp add: map_of_SomeD)
  with a(1) have "keys_sorted v" by (force simp: keys_sorted_members_iff)
  then show ?thesis by (rule keys_sorted_fixed)
qed

lemma map_of_sorted_object:
  "distinct (map fst ms) \<Longrightarrow>
     map_of (sort_key fst (sort_members ms)) k = map_option sortKeysRecursive (map_of ms k)"
  by (simp add: map_of_sort_key map_of_sort_members)

lemma transfer_written:
  assumes "JSON_parse old = Some (JObj ms)" "wf_json newOwner"
  shows "\<exists>ms'. JSON_parse (stringify (sortKeysRecursive (JObj (AList.update ''owner_name'' newOwner ms))))
               = Some (JObj ms')
           \<and> (\<forall>k. map_of ms' k =
                 (if k = ''owner_name'' then Some (sortKeysRecursive newOwner)
                  else map_option sortKeysRecursive (map_of ms k)))"
proof -
  let ?ms = "AList.update ''owner_name'' newOwner ms"
  have w: "wf_json (JObj ms)" using assms(1) by (rule JSON_parse_wf)
  have "set_prop (JObj ms) ''owner_name'' newOwner = Inr (JObj ?ms)" by simp
  with w assms(2) have w': "wf_json (JObj ?ms)" by (rule set_prop_wf)
  then have "JSON_parse (stringify (sortKeysRecursive (JObj ?ms))) = Some (sortKeysRecursive (JObj ?ms))"
    by (rule JSON_parse_encode)
  moreover have "map_of (sort_key fst (sort_members ?ms)) k =
      (if k = ''owner_name'' then Some (sortKeysRecursive newOwner)
       else map_option sortKeysRecursive (map_of ms k))" for k
    using w' by (simp add: map_of_sorted_object update_conv')
  ultimately show ?thesis by simp
qed

text \<open>
  Claim C3. Let the value stored under \<^verbatim>\<open>id\<close> be the JSON text of an object. Then
  \<^verbatim>\<open>TransferAsset(id, newOwnerName)\<close> succeeds and writes under \<^verbatim>\<open>id\<close> only. What a
  following \<^verbatim>\<open>ReadAsset(id)\<close> returns parses to an object whose \<^verbatim>\<open>owner_name\<close> is the
  new owner and whose other fields are those of the stored object, the keys of nested
  objects sorted; they are the very same values when the stored text had its keys sorted,
  as every record this contract writes has. The handler returns
  \<^verbatim>\<open>JSON.stringify({ oldOwnerName })\<close>: an object with the prior owner under the key
  \<^verbatim>\<open>oldOwnerName\<close> and nothing else of the record. (The host rejects no call; the new
  owner is a JavaScript value.)
\<close>

theorem TransferAsset_changes_owner:
  assumes "faults s = []" "map_of (states s) id' = Some old" "JSON_parse old = Some (JObj ms)"
    and "wf_json newOwner"
  shows "\<exists>s' bytes ms'.
           TransferAsset s id' newOwner = (Inr (transfer_reply (map_of ms ''owner_name'')), s')
         \<and> states s' = AList.update id' bytes (states s)
         \<and> (\<forall>k. k \<noteq> id' \<longrightarrow> map_of (states s') k = map_of (states s) k)
         \<and> ReadAsset s' id' = (Inr bytes, s')
         \<and> JSON_parse bytes = Some (JObj ms')
         \<and> map_of ms' ''owner_name'' = Some (sortKeysRecursive newOwner)
         \<and> (\<forall>k. k \<noteq> ''owner_name'' \<longrightarrow> map_of ms' k = map_option sortKeysRecursive (map_of ms k))
         \<and> (keys_sorted (JObj ms) \<longrightarrow> (\<forall>k. k \<noteq> ''owner_name'' \<longrightarrow> map_of ms' k = map_of ms k))
         \<and> (\<forall>prior. map_of ms ''owner_name'' = Some prior \<longrightarrow>
               JSON_parse (transfer_reply (map_of ms ''owner_name'')) = Some (JObj [(''oldOwnerName'', prior)]))"
proof -
  let ?bytes = "stringify (sortKeysRecursive (JObj (AList.update ''owner_name'' newOwner ms)))"
  let ?s' = "s\<lparr>states := AList.update id' ?bytes (states s)\<rparr>"
  from assms(2,3) have "old \<noteq> []" using JSON_parse_empty by auto
  with assms(2) have p: "present s id'" by (simp add: present_def)
  have t: "TransferAsset s id' newOwner = (Inr (transfer_reply (map_of ms ''owner_name'')), ?s')"
    using assms(1,2,3) p by (simp add: TransferAsset_ok)
  have o: "\<forall>k. k \<noteq> id' \<longrightarrow> map_of (states ?s') k = map_of (states s) k"
    by (simp add: update_conv')
  have "present ?s' id'" by (simp add: present_update stringify_nonempty)
  moreover have "faults ?s' = []" using assms(1) by simp
  ultimately have r: "ReadAsset ?s' id' = (Inr ?bytes, ?s')"
    by (simp add: ReadAsset_ok update_conv')
  from transfer_written [OF assms(3,4)] obtain ms' where
    m: "JSON_parse ?bytes = Some (JObj ms')"
    "\<forall>k. map_of ms' k = (if k = ''owner_name'' then Some (sortKeysRecursive newOwner)
                           else map_option sortKeysRecursive (map_of ms k))"
    by blast
  have k: "\<forall>k. k \<noteq> ''owner_name'' \<longrightarrow> map_of ms' k = map_of ms k" if "keys_sorted (JObj ms)"
  proof (intro allI impI)
    fix k :: string
    assume "k \<noteq> ''owner_name''"
    with m(2) have "map_of ms' k = map_option sortKeysRecursive (map_of ms k)" by simp
    then show "map_of ms' k = map_of ms k"
      using keys_sorted_lookup [OF that, of k] by (cases "map_of ms k") simp_all
  qed
  have w: "wf_json (JObj ms)" using assms(3) by (rule JSON_parse_wf)
  have q: "JSON_parse (transfer_reply (map_of ms ''owner_name'')) = Some (JObj [(''oldOwnerName'', prior)])"
    if "map_of ms ''owner_name'' = Some prior" for prior
  proof -
    have "wf_json prior" using w that by (auto intro: wf_members_lookup)
    then have "wf_json (JObj [(''oldOwnerName'', prior)])" by simp
    then show ?thesis
      unfolding transfer_reply_def that option.case by (rule JSON_parse_stringify)
  qed
  from t o r m k q show ?thesis
    by (intro exI [of _ ?s'] exI [of _ ?bytes] exI [of _ ms']) simp
qed

lemma chess_transfer:
  \<open>TransferAsset chess_stub ''asset1'' (JStr ''Paul'')
     = (Inr ''{"oldOwnerName":"Robert"}'',
        chess_stub\<lparr>states := [(''asset1'',
           ''{"game_name":"Chess","game_value":100,"id":"asset1","owner_name":"Paul","owner_type":"player"}'')]\<rparr>)\<close>
proof -
  have p: "JSON_parse (stringify (sortKeysRecursive chess_asset)) = Some (sortKeysRecursive chess_asset)"
    by (rule JSON_parse_encode) (simp add: chess_asset_def new_asset_def)
  have m: "map_of (states chess_stub) ''asset1'' = Some (stringify (sortKeysRecursive chess_asset))"
    by (simp add: chess_stub_def)
  have p': "JSON_parse (stringify (sortKeysRecursive chess_asset))
      = Some (JObj [(''game_name'', JStr ''Chess''), (''game_value'', JNum 100), (''id'', JStr ''asset1''),
           (''owner_name'', JStr ''Robert''), (''owner_type'', JStr ''player'')])"
    by (rule trans [OF p]) (simp only: chess_sorted)
  have a: \<open>transfer_reply (Some (JStr ''Robert'')) = ''{"oldOwnerName":"Robert"}''\<close>
    by code_simp
  have b: \<open>stringify (sortKeysRecursive (JObj (AList.update ''owner_name'' (JStr ''Paul'')
             [(''game_name'', JStr ''Chess''), (''game_value'', JNum 100), (''id'', JStr ''asset1''),
              (''owner_name'', JStr ''Robert''), (''owner_type'', JStr ''player'')])))
        = ''{"game_name":"Chess","game_value":100,"id":"asset1","owner_name":"Paul","owner_type":"player"}''\<close>
    by code_simp
  have "TransferAsset chess_stub ''asset1'' (JStr ''Paul'')
      = (Inr (transfer_reply (Some (JStr ''Robert''))),
         chess_stub\<lparr>states := AList.update ''asset1''
           (stringify (sortKeysRecursive (JObj (AList.update ''owner_name'' (JStr ''Paul'')
             [(''game_name'', JStr ''Chess''), (''game_value'', JNum 100), (''id'', JStr ''asset1''),
              (''owner_name'', JStr ''Robert''), (''owner_type'', JStr ''player'')]))))
           (states chess_stub)\<rparr>)"
    using chess_stub_present(1) m p'
    by (simp add: TransferAsset_ok chess_stub_faults del: sortKeysRecursive.simps)
  then show ?thesis
    unfolding a b by (simp add: chess_stub_def)
qed

theorem TransferAsset_changes_owner_witness:
  \<open>\<exists>s' ms'.
     TransferAsset chess_stub ''asset1'' (JStr ''Paul'') = (Inr ''{"oldOwnerName":"Robert"}'', s')
   \<and> ReadAsset s' ''asset1''
       = (Inr ''{"game_name":"Chess","game_value":100,"id":"asset1","owner_name":"Paul","owner_type":"player"}'', s')
   \<and> JSON_parse ''{"game_name":"Chess","game_value":100,"id":"asset1","owner_name":"Paul","owner_type":"player"}''
       = Some (JObj ms')
   \<and> map_of ms' ''owner_name'' = Some (JStr ''Paul'')
   \<and> map_of ms' ''game_name'' = Some (JStr ''Chess'')
   \<and> map_of ms' ''game_value'' = Some (JNum 100)
   \<and> map_of ms' ''id'' = Some (JStr ''asset1'')
   \<and> map_of ms' ''owner_type'' = Some (JStr ''player'')\<close>
proof -
  define ms where "ms = [(''game_name'', JStr ''Chess''), (''game_value'', JNum 100), (''id'', JStr ''asset1''),
           (''owner_name'', JStr ''Robert''), (''owner_type'', JStr ''player'')]"
  define old where "old = stringify (sortKeysRecursive chess_asset)"
  define newOwner where "newOwner = JStr ''Paul''"
  have p: "JSON_parse old = Some (sortKeysRecursive chess_asset)"
    unfolding old_def by (rule JSON_parse_encode) (simp add: chess_asset_def new_asset_def)
  have m: "map_of (states chess_stub) ''asset1'' = Some old"
    by (simp add: chess_stub_def old_def)
  have w: "wf_json newOwner" by (simp add: newOwner_def)
  have p': "JSON_parse old = Some (JObj ms)"
    unfolding ms_def by (rule trans [OF p]) (simp only: chess_sorted)
  have k: "keys_sorted (JObj ms)" unfolding ms_def by code_simp
  from TransferAsset_changes_owner [OF chess_stub_faults m p' w]
  obtain s' bytes ms' where t:
    "TransferAsset chess_stub ''asset1'' newOwner = (Inr (transfer_reply (map_of ms ''owner_name'')), s')"
    "ReadAsset s' ''asset1'' = (Inr bytes, s')"
    "JSON_parse bytes = Some (JObj ms')"
    "map_of ms' ''owner_name'' = Some (sortKeysRecursive newOwner)"
    "keys_sorted (JObj ms) \<longrightarrow> (\<forall>k. k \<noteq> ''owner_name'' \<longrightarrow> map_of ms' k = map_of ms k)"
    "states s' = AList.update ''asset1'' bytes (states chess_stub)"
    by (elim exE conjE) (rule that; assumption)
  from t(5) k have o: "\<forall>k. k \<noteq> ''owner_name'' \<longrightarrow> map_of ms' k = map_of ms k" by blast
  note c = chess_transfer [folded newOwner_def]
  from t(1) c have s': \<open>s' = chess_stub\<lparr>states := [(''asset1'',
           ''{"game_name":"Chess","game_value":100,"id":"asset1","owner_name":"Paul","owner_type":"player"}'')]\<rparr>\<close>
    by (simp only: prod.inject)
  with t(6) have b: \<open>bytes = ''{"game_name":"Chess","game_value":100,"id":"asset1","owner_name":"Paul","owner_type":"player"}''\<close>
    by (simp add: chess_stub_def)
  from t(1) c have r: \<open>transfer_reply (map_of ms ''owner_name'') = ''{"oldOwnerName":"Robert"}''\<close>
    by (simp only: prod.inject sum.inject)
  have f: "map_of ms' ''game_name'' = Some (JStr ''Chess'')" "map_of ms' ''game_value'' = Some (JNum 100)"
    "map_of ms' ''id'' = Some (JStr ''asset1'')" "map_of ms' ''owner_type'' = Some (JStr ''player'')"
    using o by (simp_all add: ms_def)
  have n: "map_of ms' ''owner_name'' = Some (JStr ''Paul'')"
    using t(4) by (simp add: newOwner_def)
  show ?thesis
    apply (rule exI [of _ s'])
    apply (rule exI [of _ ms'])
    apply (intro conjI)
           apply (rule t(1) [unfolded r newOwner_def])
          apply (rule t(2) [unfolded b])
         apply (rule t(3) [unfolded b])
        apply (rule n)
       apply (rule f(1))
      apply (rule f(2))
     apply (rule f(3))
    apply (rule f(4))
    done
qed

section \<open>Sequences of transactions\<close>

lemma store_ok_same: "store_ok s \<Longrightarrow> states s' = states s \<Longrightarrow> store_ok s'"
  by (simp add: store_ok_def)

lemma store_ok_update:
  "store_ok s \<Longrightarrow> record_ok k b \<Longrightarrow> states s' = AList.update k b (states s) \<Longrightarrow> store_ok s'"
  using set_update_subset [of k b "states s"] by (auto simp: store_ok_def list_all_iff)

lemma store_ok_delete:
  "store_ok s \<Longrightarrow> states s' = AList.delete k (states s) \<Longrightarrow> store_ok s'"
  by (auto simp: store_ok_def list_all_iff AList.delete_eq)

lemma write_all_ok:
  "list_all (\<lambda>w. record_ok (fst w) (snd w)) ws \<Longrightarrow> list_all (\<lambda>w. record_ok (fst w) (snd w)) st \<Longrightarrow>
     list_all (\<lambda>w. record_ok (fst w) (snd w)) (write_all ws st)"
proof (induction ws arbitrary: st)
  case Nil
  then show ?case by simp
next
  case (Cons w ws)
  have "list_all (\<lambda>w. record_ok (fst w) (snd w)) (AList.update (fst w) (snd w) st)"
    using Cons.prems set_update_subset [of "fst w" "snd w" st] by (auto simp: list_all_iff)
  with Cons show ?case by simp
qed

lemma tagged_record_ok: "tagged_record k b \<Longrightarrow> record_ok k b"
  by (auto simp: tagged_record_def record_ok_def split: option.splits json.splits)

lemma seed_writes_ok: "list_all (\<lambda>w. record_ok (fst w) (snd w)) seed_writes"
  using seed_writes_tagged by (auto simp: list_all_iff tagged_record_ok)

lemma new_asset_ok:
  assumes "wf_json gn" "wf_json own" "wf_json ot" "wf_json gv"
  shows "record_ok k (stringify (sortKeysRecursive (new_asset k gn own ot gv)))"
  by (simp add: record_ok_def new_asset_stored [OF assms])

lemma transfer_ok:
  assumes "record_ok k old" "JSON_parse old = Some asset" "wf_json newOwner"
    "set_prop asset ''owner_name'' newOwner = Inr asset'"
  shows "record_ok k (stringify (sortKeysRecursive asset'))"
proof -
  from assms(1,2) obtain ms where ms: "asset = JObj ms" "map_of ms ''id'' = Some (JStr k)"
    by (auto simp: record_ok_def split: json.splits)
  with assms(4) have a: "asset' = JObj (AList.update ''owner_name'' newOwner ms)" by simp
  from transfer_written [OF assms(2) [unfolded ms(1)] assms(3)] obtain ms' where
    "JSON_parse (stringify (sortKeysRecursive asset')) = Some (JObj ms')"
    "map_of ms' ''id'' = map_option sortKeysRecursive (map_of ms ''id'')"
    unfolding a by fastforce
  with ms(2) show ?thesis by (simp add: record_ok_def)
qed

lemma AssetExists_states: "states (snd (AssetExists s k)) = states s"
  by (auto simp: AssetExists_def getState_def next_fault_def split: list.splits bool.splits)

lemma ReadAsset_states: "states (snd (ReadAsset s k)) = states s"
  using ReadAsset_cases [of s k "fst (ReadAsset s k)" "snd (ReadAsset s k)"] by simp

lemma GetAllAssets_states: "states (snd (GetAllAssets s)) = states s"
  by (auto simp: GetAllAssets_def getStateByRange_def next_fault_def split: list.splits bool.splits)

lemma store_ok_lookup: "store_ok s \<Longrightarrow> map_of (states s) k = Some b \<Longrightarrow> record_ok k b"
  using map_of_SomeD [of "states s" k b] by (force simp: store_ok_def list_all_iff)

lemma apply_op_ok: "store_ok s \<Longrightarrow> wf_op op \<Longrightarrow> store_ok (apply_op s op)"
proof (cases op)
  case InitLedgerOp
  assume s: "store_ok s"
  from InitLedger_states [of s] obtain n where
    n: "states (snd (InitLedger s)) = write_all (take n seed_writes) (states s)" by blast
  have "list_all (\<lambda>w. record_ok (fst w) (snd w)) (take n seed_writes)"
    using seed_writes_ok by (auto simp: list_all_iff dest: in_set_takeD)
  then have "list_all (\<lambda>w. record_ok (fst w) (snd w)) (write_all (take n seed_writes) (states s))"
    using s by (intro write_all_ok) (simp_all add: store_ok_def)
  with n InitLedgerOp show ?thesis by (simp add: store_ok_def)
next
  case (CreateAssetOp k gn own ot gv)
  assume s: "store_ok s" and "wf_op op"
  with CreateAssetOp have "record_ok k (stringify (sortKeysRecursive (new_asset k gn own ot gv)))"
    by (simp add: new_asset_ok)
  with s CreateAsset_states [of s k gn own ot gv] CreateAssetOp show ?thesis
    by (auto intro: store_ok_same store_ok_update)
next
  case (ReadAssetOp k)
  assume "store_ok s"
  with ReadAssetOp show ?thesis by (auto intro: store_ok_same simp: ReadAsset_states)
next
  case (UpdateAssetOp k gn own ot gv)
  assume s: "store_ok s" and "wf_op op"
  with UpdateAssetOp have "record_ok k (stringify (sortKeysRecursive (new_asset k gn own ot gv)))"
    by (simp add: new_asset_ok)
  with s UpdateAsset_states [of s k gn own ot gv] UpdateAssetOp show ?thesis
    by (auto intro: store_ok_same store_ok_update)
next
  case (DeleteAssetOp k)
  assume "store_ok s"
  with DeleteAsset_states [of s k] DeleteAssetOp show ?thesis
    by (auto intro: store_ok_same store_ok_delete)
next
  case (AssetExistsOp k)
  assume "store_ok s"
  with AssetExistsOp show ?thesis by (auto intro: store_ok_same simp: AssetExists_states)
next
  case (TransferAssetOp k newOwner)
  assume s: "store_ok s" and w: "wf_op op"
  from TransferAsset_states [of s k newOwner] show ?thesis
  proof
    assume "states (snd (TransferAsset s k newOwner)) = states s"
    with s TransferAssetOp show ?thesis by (auto intro: store_ok_same)
  next
    assume "\<exists>bytes asset asset'.
         map_of (states s) k = Some bytes \<and> JSON_parse bytes = Some asset
       \<and> set_prop asset ''owner_name'' newOwner = Inr asset'
       \<and> states (snd (TransferAsset s k newOwner))
           = AList.update k (stringify (sortKeysRecursive asset')) (states s)"
    then obtain old asset asset' where t: "map_of (states s) k = Some old" "JSON_parse old = Some asset"
      "set_prop asset ''owner_name'' newOwner = Inr asset'"
      "states (snd (TransferAsset s k newOwner))
           = AList.update k (stringify (sortKeysRecursive asset')) (states s)"
      by blast
    have "record_ok k old" using s t(1) by (rule store_ok_lookup)
    then have "record_ok k (stringify (sortKeysRecursive asset'))"
      using t(2) w t(3) TransferAssetOp by (intro transfer_ok [of k old asset newOwner asset']) simp_all
    with s t(4) TransferAssetOp show ?thesis by (auto intro: store_ok_update)
  qed
next
  case GetAllAssetsOp
  assume "store_ok s"
  with GetAllAssetsOp show ?thesis by (auto intro: store_ok_same simp: GetAllAssets_states)
qed

lemma run_ok: "store_ok s \<Longrightarrow> \<forall>op \<in> set ops. wf_op op \<Longrightarrow> store_ok (run s ops)"
  unfolding run_def
  by (induction ops arbitrary: s) (simp_all add: apply_op_ok)

lemma record_okD:
  "record_ok k b \<Longrightarrow> \<exists>ms. JSON_parse b = Some (JObj ms) \<and> map_of ms ''id'' = Some (JStr k)"
proof (cases "JSON_parse b")
  case None
  assume "record_ok k b"
  with None show ?thesis by (simp add: record_ok_def)
next
  case (Some v)
  assume "record_ok k b"
  with Some show ?thesis by (cases v) (simp_all add: record_ok_def)
qed

text \<open>
  Claim C10. Start from an empty store, with a host that rejects any calls it likes. After
  any sequence of transactions (the arguments are JavaScript values) every value in the
  store parses to a JSON object whose \<^verbatim>\<open>id\<close> is the key the value is stored under.
\<close>

theorem stored_id_is_key:
  assumes "states s = []" "\<forall>op \<in> set ops. wf_op op"
  shows "\<forall>w \<in> set (states (run s ops)).
           \<exists>ms. JSON_parse (snd w) = Some (JObj ms) \<and> map_of ms ''id'' = Some (JStr (fst w))"
proof -
  have "store_ok s" using assms(1) by (simp add: store_ok_def)
  then have "store_ok (run s ops)" using assms(2) by (rule run_ok)
  then show ?thesis
    by (auto simp: store_ok_def list_all_iff dest: record_okD)
qed

theorem stored_id_is_key_witness:
  \<open>states (run empty_stub
       [CreateAssetOp ''asset1'' (JStr ''Chess'') (JStr ''Robert'') (JStr ''player'') (JNum 100),
        TransferAssetOp ''asset1'' (JStr ''Paul'')])
     = [(''asset1'', ''{"game_name":"Chess","game_value":100,"id":"asset1","owner_name":"Paul","owner_type":"player"}'')]
   \<and> (\<exists>ms. JSON_parse ''{"game_name":"Chess","game_value":100,"id":"asset1","owner_name":"Paul","owner_type":"player"}''
            = Some (JObj ms) \<and> map_of ms ''id'' = Some (JStr ''asset1''))\<close>
proof -
  let ?ops = "[CreateAssetOp ''asset1'' (JStr ''Chess'') (JStr ''Robert'') (JStr ''player'') (JNum 100),
               TransferAssetOp ''asset1'' (JStr ''Paul'')]"
  have e: "states empty_stub = []" by (simp add: empty_stub_def)
  have w: "\<forall>op \<in> set ?ops. wf_op op" by simp
  have r: \<open>states (run empty_stub ?ops)
     = [(''asset1'', ''{"game_name":"Chess","game_value":100,"id":"asset1","owner_name":"Paul","owner_type":"player"}'')]\<close>
    using chess_transfer by (simp add: run_def chess_create)
  from stored_id_is_key [OF e w] show ?thesis
    unfolding r by simp
qed

section \<open>Absent keys\<close>






end
